theory Spec2Isabelle
  imports Complex_Main "HOL-Library.Multiset" "HOL-Library.Sublist"
begin

section \<open>The vocabulary store of db.ts\<close>

text \<open>
  A shallow embedding of the persistence layer in \<^verbatim>\<open>db.ts\<close>: the two object stores
  \<^verbatim>\<open>words\<close> and \<^verbatim>\<open>idioms\<close>, the bulk insert \<^verbatim>\<open>addVocabularyItems\<close>, the queries
  \<^verbatim>\<open>getVocabulary\<close>, \<^verbatim>\<open>getAllVocabularyForLevelAndCategory\<close>, \<^verbatim>\<open>getExistingWords\<close> and
  \<^verbatim>\<open>getPaginatedVocabulary\<close>, and the updater \<^verbatim>\<open>updateFrequencyLevels\<close>.

  Strings are \<open>string\<close>; the string enums of \<^verbatim>\<open>types.ts\<close> (\<^verbatim>\<open>Level\<close>, \<^verbatim>\<open>VocabCategory\<close>,
  \<^verbatim>\<open>PartOfSpeech\<close>, \<^verbatim>\<open>VocabType\<close>) are the strings they are at run time, because the code
  itself checks them at run time (\<^verbatim>\<open>PARTS_OF_SPEECH.includes(item.pos)\<close>,
  \<^verbatim>\<open>item.type === 'word'\<close>). Numbers that are keys or counters are \<open>nat\<close>, the arguments
  of \<^verbatim>\<open>slice\<close> and frequency levels are \<open>int\<close>.
\<close>

subsection \<open>Constants (constants.ts)\<close>

definition LEVELS :: "string list" where
  "LEVELS = [''Beginner (TOEIC 400-600)'', ''Intermediate (TOEIC 600-800)'',
             ''Advanced (TOEIC 800-990)'']"

definition VOCAB_CATEGORIES :: "string list" where
  "VOCAB_CATEGORIES = [''Business'', ''Travel'', ''Daily Life'', ''Finance'', ''Health'']"

definition PARTS_OF_SPEECH :: "string list" where
  "PARTS_OF_SPEECH = [''Noun'', ''Verb'', ''Adjective'', ''Adverb'']"

definition ALL_LEVELS :: string where
  "ALL_LEVELS = ''All Levels''"

definition ALL_CATEGORIES :: string where
  "ALL_CATEGORIES = ''All Categories''"

subsection \<open>Records\<close>

text \<open>
  \<open>VocabDBItem\<close> is the interface of \<^verbatim>\<open>types.ts\<close>: \<^verbatim>\<open>id?\<close>, \<^verbatim>\<open>pos?\<close> and
  \<^verbatim>\<open>frequencyLevel?\<close> are optional (\<open>None\<close> is \<^verbatim>\<open>undefined\<close> or \<^verbatim>\<open>null\<close>), the other
  fields are strings.

  The elements handed to \<^verbatim>\<open>addVocabularyItems\<close> come from the generation service or from
  an imported JSON file, and the function tests them field by field before the cast
  \<^verbatim>\<open>data as VocabDBItem\<close>. \<open>raw_item\<close> is such an element before the cast: every field may
  be absent. For \<open>r_english\<close>, \<open>None\<close> also stands for a value that is not a string
  (\<^verbatim>\<open>typeof item.english !== 'string'\<close>). An element that is itself \<^verbatim>\<open>null\<close> or
  \<^verbatim>\<open>undefined\<close> is \<open>None :: raw_item option\<close>.
\<close>

record VocabDBItem =
  id' :: "nat option"
  english :: string
  japanese :: string
  pos :: "string option"
  example_en :: string
  example_jp :: string
  level :: string
  category :: string
  type :: string
  frequencyLevel :: "int option"

record raw_item =
  r_id :: "nat option"
  r_english :: "string option"
  r_japanese :: "string option"
  r_pos :: "string option"
  r_example_en :: "string option"
  r_example_jp :: "string option"
  r_level :: "string option"
  r_category :: "string option"
  r_type :: "string option"
  r_frequencyLevel :: "int option"

text \<open>JavaScript truthiness of an optional string: absent and \<^verbatim>\<open>''\<close> are falsy.\<close>

definition truthy :: "string option \<Rightarrow> bool" where
  "truthy v = (case v of None \<Rightarrow> False | Some s \<Rightarrow> s \<noteq> [])"

text \<open>Truthiness of an optional number: absent and \<^verbatim>\<open>0\<close> are falsy.\<close>

definition truthy_num :: "int option \<Rightarrow> bool" where
  "truthy_num v = (case v of None \<Rightarrow> False | Some n \<Rightarrow> n \<noteq> 0)"

text \<open>Reading a string field at the cast; it is only applied to fields found truthy.\<close>

definition str :: "string option \<Rightarrow> string" where
  "str v = (case v of None \<Rightarrow> [] | Some s \<Rightarrow> s)"

text \<open>\<^verbatim>\<open>const { id, ...data } = item; data as VocabDBItem\<close>: every field but \<^verbatim>\<open>id\<close>.\<close>

definition data_of :: "raw_item \<Rightarrow> VocabDBItem" where
  "data_of item =
     \<lparr> id' = None, english = str (r_english item), japanese = str (r_japanese item),
       pos = r_pos item, example_en = str (r_example_en item),
       example_jp = str (r_example_jp item), level = str (r_level item),
       category = str (r_category item), type = str (r_type item),
       frequencyLevel = r_frequencyLevel item \<rparr>"

subsection \<open>The database: two object stores with key generators\<close>

text \<open>
  Each object store has \<^verbatim>\<open>keyPath: 'id', autoIncrement: true\<close>: it is the list of its
  records in key order together with the next key of its generator (the first key is 1).
  The database is created by the \<^verbatim>\<open>upgrade\<close> callback with both stores empty.
\<close>

record db =
  words :: "VocabDBItem list"
  idioms :: "VocabDBItem list"
  wordsNextKey :: nat
  idiomsNextKey :: nat

definition empty_db :: db where
  "empty_db = \<lparr> words = [], idioms = [], wordsNextKey = 1, idiomsNextKey = 1 \<rparr>"

datatype error = StorageFault | ConstraintError

text \<open>
  \<^verbatim>\<open>wordsStore.index('english_pos').get([english, pos])\<close> and
  \<^verbatim>\<open>idiomsStore.index('english').get(english)\<close>: the first record with that index key.
\<close>

definition words_index_get :: "db \<Rightarrow> string \<times> string \<Rightarrow> VocabDBItem option" where
  "words_index_get d k = find (\<lambda>w. english w = fst k \<and> pos w = Some (snd k)) (words d)"

definition idioms_index_get :: "db \<Rightarrow> string \<Rightarrow> VocabDBItem option" where
  "idioms_index_get d e = find (\<lambda>i. english i = e) (idioms d)"

text \<open>
  \<^verbatim>\<open>store.add(value)\<close> for a value without \<^verbatim>\<open>id\<close> (it is removed before every add): the
  key generator supplies the key, the record goes to the end of the store, and the
  unique index rejects a value whose index key is already present. A record whose
  \<^verbatim>\<open>pos\<close> is \<^verbatim>\<open>null\<close> has no key in the compound index \<^verbatim>\<open>english_pos\<close>.
\<close>

definition words_add :: "db \<Rightarrow> VocabDBItem \<Rightarrow> error + db" where
  "words_add d v =
     (if (case pos v of None \<Rightarrow> False
          | Some p \<Rightarrow> words_index_get d (english v, p) \<noteq> None)
      then Inl ConstraintError
      else Inr (d\<lparr> words := words d @ [v\<lparr> id' := Some (wordsNextKey d) \<rparr>],
                   wordsNextKey := wordsNextKey d + 1 \<rparr>))"

definition idioms_add :: "db \<Rightarrow> VocabDBItem \<Rightarrow> error + db" where
  "idioms_add d v =
     (if idioms_index_get d (english v) \<noteq> None
      then Inl ConstraintError
      else Inr (d\<lparr> idioms := idioms d @ [v\<lparr> id' := Some (idiomsNextKey d) \<rparr>],
                   idiomsNextKey := idiomsNextKey d + 1 \<rparr>))"

subsection \<open>getDb: the upgrade from a legacy store\<close>

text \<open>
  The \<^verbatim>\<open>upgrade\<close> callback of \<^verbatim>\<open>getDb\<close>, for a database older than version 4, creates the
  two stores and, when the old \<^verbatim>\<open>vocabulary\<close> store exists, copies its records in key
  order: \<^verbatim>\<open>const { id, ...data } = item\<close>, then a word with one of the four parts of
  speech goes to \<^verbatim>\<open>words\<close> and an idiom to \<^verbatim>\<open>idioms\<close>, each as \<^verbatim>\<open>data\<close> stands (the idiom
  keeps its \<^verbatim>\<open>pos\<close>); any other record is dropped. An add that the unique index refuses
  is caught (\<^verbatim>\<open>.catch(e => console.warn(...))\<close>) and the loop goes on. The records of the
  old store are \<open>VocabDBItem\<close>s, as the schema \<^verbatim>\<open>TOEICDB\<close> declares. Without an old store
  the result is the empty database.
\<close>

definition migrate_item :: "db \<Rightarrow> VocabDBItem \<Rightarrow> db" where
  "migrate_item d item =
     (let data = item\<lparr> id' := None \<rparr> in
      if type item = ''word'' \<and> truthy (pos item) \<and> str (pos item) \<in> set PARTS_OF_SPEECH
      then (case words_add d data of Inl e \<Rightarrow> d | Inr d' \<Rightarrow> d')
      else if type item = ''idiom''
      then (case idioms_add d data of Inl e \<Rightarrow> d | Inr d' \<Rightarrow> d')
      else d)"

definition upgrade :: "VocabDBItem list \<Rightarrow> db" where
  "upgrade legacy = foldl migrate_item empty_db legacy"

subsection \<open>Storage faults\<close>

text \<open>
  Every awaited request of a transaction (\<^verbatim>\<open>index.get\<close>, \<^verbatim>\<open>store.add\<close>, \<^verbatim>\<open>tx.done\<close>)
  can be rejected by the storage engine. The environment is a budget: \<open>None\<close> is an
  engine that never fails, \<open>Some k\<close> one whose request number \<open>k\<close> (from 0) fails.
\<close>

type_synonym budget = "nat option"

fun request :: "budget \<Rightarrow> error + budget" where
  "request None = Inr None"
| "request (Some 0) = Inl StorageFault"
| "request (Some (Suc k)) = Inr (Some k)"

subsection \<open>addVocabularyItems\<close>

datatype log_entry =
    WarnInvalidBase "raw_item option"
  | WarnMissingCore raw_item
  | WarnBadPos raw_item
  | ErrorAborted error

text \<open>
  The state of one call inside its transaction: the working copy of both stores,
  \<^verbatim>\<open>addedCount\<close>, what is left of the budget, and the console output so far.
\<close>

record tx =
  tx_db :: db
  addedCount :: nat
  tx_budget :: budget
  console :: "log_entry list"

definition warn :: "tx \<Rightarrow> log_entry \<Rightarrow> tx" where
  "warn t w = t\<lparr> console := console t @ [w] \<rparr>"

text \<open>The body of the \<^verbatim>\<open>for\<close> loop; \<open>Inl\<close> is a rejected request, thrown out of the loop.\<close>

definition process_item :: "tx \<Rightarrow> raw_item option \<Rightarrow> (error \<times> log_entry list) + tx" where
  "process_item t item =
     (case item of
        None \<Rightarrow> Inr (warn t (WarnInvalidBase None))
      | Some it \<Rightarrow>
          if r_english it = None \<or> \<not> truthy (r_english it) \<or> \<not> truthy (r_type it)
          then Inr (warn t (WarnInvalidBase item))
          else if \<not> truthy (r_japanese it) \<or> \<not> truthy (r_example_en it)
                  \<or> \<not> truthy (r_example_jp it) \<or> \<not> truthy (r_level it)
                  \<or> \<not> truthy (r_category it)
          then Inr (warn t (WarnMissingCore it))
          else
            let data = data_of it in
            if r_type it = Some ''word'' then
              (if truthy (r_pos it) \<and> str (r_pos it) \<in> set PARTS_OF_SPEECH then
                 (case request (tx_budget t) of
                    Inl e \<Rightarrow> Inl (e, console t)
                  | Inr b1 \<Rightarrow>
                      (case words_index_get (tx_db t) (str (r_english it), str (r_pos it)) of
                         Some existing \<Rightarrow> Inr (t\<lparr> tx_budget := b1 \<rparr>)
                       | None \<Rightarrow>
                           (case request b1 of
                              Inl e \<Rightarrow> Inl (e, console t)
                            | Inr b2 \<Rightarrow>
                                (case words_add (tx_db t) data of
                                   Inl e \<Rightarrow> Inl (e, console t)
                                 | Inr d' \<Rightarrow>
                                     Inr (t\<lparr> tx_db := d', addedCount := addedCount t + 1,
                                             tx_budget := b2 \<rparr>)))))
               else Inr (warn t (WarnBadPos it)))
            else if r_type it = Some ''idiom'' then
              (case request (tx_budget t) of
                 Inl e \<Rightarrow> Inl (e, console t)
               | Inr b1 \<Rightarrow>
                   (case idioms_index_get (tx_db t) (str (r_english it)) of
                      Some existing \<Rightarrow> Inr (t\<lparr> tx_budget := b1 \<rparr>)
                    | None \<Rightarrow>
                        (case request b1 of
                           Inl e \<Rightarrow> Inl (e, console t)
                         | Inr b2 \<Rightarrow>
                             (case idioms_add (tx_db t) (data\<lparr> pos := None \<rparr>) of
                                Inl e \<Rightarrow> Inl (e, console t)
                              | Inr d' \<Rightarrow>
                                  Inr (t\<lparr> tx_db := d', addedCount := addedCount t + 1,
                                          tx_budget := b2 \<rparr>)))))
            else Inr t)"

fun addLoop :: "tx \<Rightarrow> raw_item option list \<Rightarrow> (error \<times> log_entry list) + tx" where
  "addLoop t [] = Inr t"
| "addLoop t (item # rest) =
     (case process_item t item of
        Inl e \<Rightarrow> Inl e
      | Inr t' \<Rightarrow> addLoop t' rest)"

text \<open>
  The whole call. The transaction works on a copy of the database: \<^verbatim>\<open>await tx.done\<close>
  (one more request) commits the copy; the \<^verbatim>\<open>catch\<close> block logs, calls \<^verbatim>\<open>tx.abort()\<close>,
  which discards the copy, and rethrows.
\<close>

record add_result =
  returned :: "error + nat"
  db_after :: db
  logged :: "log_entry list"

definition addVocabularyItems :: "budget \<Rightarrow> db \<Rightarrow> raw_item option list \<Rightarrow> add_result" where
  "addVocabularyItems b d items =
     (case addLoop \<lparr> tx_db = d, addedCount = 0, tx_budget = b, console = [] \<rparr> items of
        Inl (e, lg) \<Rightarrow>
          \<lparr> returned = Inl e, db_after = d, logged = lg @ [ErrorAborted e] \<rparr>
      | Inr t \<Rightarrow>
          (case request (tx_budget t) of
             Inl e \<Rightarrow>
               \<lparr> returned = Inl e, db_after = d, logged = console t @ [ErrorAborted e] \<rparr>
           | Inr b' \<Rightarrow>
               \<lparr> returned = Inr (addedCount t), db_after = tx_db t, logged = console t \<rparr>))"

subsection \<open>Array helpers\<close>

text \<open>
  \<^verbatim>\<open>Array.prototype.slice(start, end)\<close> on integers: a negative argument counts from the
  end of the array, and both are clamped to the array.
\<close>

definition js_slice :: "'a list \<Rightarrow> int \<Rightarrow> int \<Rightarrow> 'a list" where
  "js_slice xs start fin =
     (let n = int (length xs);
          from = (if start < 0 then max (n + start) 0 else min start n);
          to = (if fin < 0 then max (n + fin) 0 else min fin n)
      in take (nat (to - from)) (drop (nat from) xs))"

text \<open>
  \<^verbatim>\<open>Array.prototype.sort(cmp)\<close> is a stable sort: an insertion sort that puts an element
  before the first later element it does not compare greater than.
\<close>

fun insert_by :: "('a \<Rightarrow> 'a \<Rightarrow> int) \<Rightarrow> 'a \<Rightarrow> 'a list \<Rightarrow> 'a list" where
  "insert_by cmp x [] = [x]"
| "insert_by cmp x (y # ys) =
     (if cmp x y \<le> 0 then x # y # ys else y # insert_by cmp x ys)"

definition js_sort :: "('a \<Rightarrow> 'a \<Rightarrow> int) \<Rightarrow> 'a list \<Rightarrow> 'a list" where
  "js_sort cmp xs = foldr (insert_by cmp) xs []"

text \<open>
  A text is the list of its characters, a text outside ASCII the list of the bytes of
  its UTF-8 form. \<^verbatim>\<open>String.prototype.toLowerCase\<close> is the case mapping of Unicode, which
  belongs to the host like the order of \<^verbatim>\<open>localeCompare\<close>: the paginated query takes it as
  an argument, so that what is proved of the query holds for the host's mapping, on
  \<^verbatim>\<open>english\<close> and on \<^verbatim>\<open>japanese\<close> alike. \<open>ascii_toLowerCase\<close> is that mapping on ASCII
  texts, for evaluation. \<^verbatim>\<open>String.prototype.includes\<close> looks for the argument at every
  position of the text.
\<close>

definition ascii_toLowerCase_char :: "char \<Rightarrow> char" where
  "ascii_toLowerCase_char c =
     (let n = (of_char c :: nat) in if 65 \<le> n \<and> n \<le> 90 then char_of (n + 32) else c)"

definition ascii_toLowerCase :: "string \<Rightarrow> string" where
  "ascii_toLowerCase s = map ascii_toLowerCase_char s"

fun js_includes :: "string \<Rightarrow> string \<Rightarrow> bool" where
  "js_includes [] n = (n = [])"
| "js_includes (h # hs) n = (take (length n) (h # hs) = n \<or> js_includes hs n)"

text \<open>
  The order of \<^verbatim>\<open>String.prototype.localeCompare\<close> belongs to the host; the queries take
  it as their first argument. \<open>compare_bytes\<close> is one such comparison, for evaluation.
\<close>

fun compare_bytes :: "string \<Rightarrow> string \<Rightarrow> int" where
  "compare_bytes [] [] = 0"
| "compare_bytes [] (b # bs) = - 1"
| "compare_bytes (a # as) [] = 1"
| "compare_bytes (a # as) (b # bs) =
     (if (of_char a :: nat) < of_char b then - 1
      else if (of_char b :: nat) < of_char a then 1
      else compare_bytes as bs)"

subsection \<open>The Random sort order: the shuffle loop of getVocabulary\<close>

text \<open>
  \<^verbatim>\<open>Math.random()\<close> is a stream \<open>rnd\<close> of rationals, \<open>rnd k\<close> being the result of call
  number \<open>k\<close>; its contract is \<open>0 \<le> rnd k < 1\<close>. The loop
  \<^verbatim>\<open>for (let i = n - 1; i > 0; i--) { j = Math.floor(Math.random() * (i + 1)); swap }\<close>
  makes call number \<open>k\<close> at index \<open>i\<close>. Under the contract \<open>j \<le> i\<close>, so both indices are
  inside the array.
\<close>

definition swap :: "nat \<Rightarrow> nat \<Rightarrow> 'a list \<Rightarrow> 'a list" where
  "swap i j xs = (xs[i := xs ! j])[j := xs ! i]"

fun shuffle_from :: "(nat \<Rightarrow> rat) \<Rightarrow> nat \<Rightarrow> nat \<Rightarrow> 'a list \<Rightarrow> 'a list" where
  "shuffle_from rnd k 0 xs = xs"
| "shuffle_from rnd k (Suc i) xs =
     shuffle_from rnd (Suc k) i (swap (Suc i) (nat \<lfloor>rnd k * of_nat (Suc i + 1)\<rfloor>) xs)"

definition shuffle :: "(nat \<Rightarrow> rat) \<Rightarrow> 'a list \<Rightarrow> 'a list" where
  "shuffle rnd xs = shuffle_from rnd 0 (length xs - 1) xs"

subsection \<open>getVocabulary and getAllVocabularyForLevelAndCategory\<close>

text \<open>
  \<^verbatim>\<open>db.getAllFromIndex(store, 'level_category', IDBKeyRange.only([level, category]))\<close>:
  the records of the store with that index key, in key order.
\<close>

definition getAllFromIndex_level_category ::
  "VocabDBItem list \<Rightarrow> string \<Rightarrow> string \<Rightarrow> VocabDBItem list" where
  "getAllFromIndex_level_category store lv cat =
     filter (\<lambda>x. level x = lv \<and> category x = cat) store"

definition filtered_for_level_category ::
  "(string \<Rightarrow> string \<Rightarrow> int) \<Rightarrow> (nat \<Rightarrow> rat) \<Rightarrow> db \<Rightarrow> string \<Rightarrow> string \<Rightarrow> string \<Rightarrow>
   string \<Rightarrow> string \<Rightarrow> int option \<Rightarrow> VocabDBItem list" where
  "filtered_for_level_category localeCompare rnd d lv cat vocabType posFilter sortOrder freq =
     (let allItems0 =
            (if vocabType = ''word'' \<or> vocabType = ''all''
             then getAllFromIndex_level_category (words d) lv cat else []);
          allItems1 = allItems0 @
            (if vocabType = ''idiom'' \<or> vocabType = ''all''
             then getAllFromIndex_level_category (idioms d) lv cat else []);
          allItems2 =
            (if posFilter \<noteq> ''all''
             then filter (\<lambda>item. pos item = Some posFilter) allItems1 else allItems1);
          allItems3 =
            (if truthy_num freq
             then filter (\<lambda>item. frequencyLevel item = freq) allItems2 else allItems2)
      in if sortOrder = ''Alphabetical''
         then js_sort (\<lambda>a b. localeCompare (english a) (english b)) allItems3
         else shuffle rnd allItems3)"

definition getVocabulary ::
  "(string \<Rightarrow> string \<Rightarrow> int) \<Rightarrow> (nat \<Rightarrow> rat) \<Rightarrow> db \<Rightarrow> string \<Rightarrow> string \<Rightarrow> string \<Rightarrow>
   string \<Rightarrow> string \<Rightarrow> int \<Rightarrow> int option \<Rightarrow> VocabDBItem list" where
  "getVocabulary localeCompare rnd d lv cat vocabType posFilter sortOrder count' freq =
     js_slice
       (filtered_for_level_category localeCompare rnd d lv cat vocabType posFilter sortOrder freq)
       0 count'"

definition getAllVocabularyForLevelAndCategory ::
  "(string \<Rightarrow> string \<Rightarrow> int) \<Rightarrow> (nat \<Rightarrow> rat) \<Rightarrow> db \<Rightarrow> string \<Rightarrow> string \<Rightarrow> string \<Rightarrow>
   string \<Rightarrow> string \<Rightarrow> int option \<Rightarrow> VocabDBItem list" where
  "getAllVocabularyForLevelAndCategory localeCompare rnd d lv cat vocabType posFilter sortOrder freq =
     filtered_for_level_category localeCompare rnd d lv cat vocabType posFilter sortOrder freq"

subsection \<open>getExistingWords\<close>

text \<open>
  \<^verbatim>\<open>items.sort(() => 0.5 - Math.random())\<close>: the comparison function ignores its
  arguments and draws a number at each call. The sort is the insertion sort of
  \<open>js_sort\<close> with the number of the next draw threaded through: an element goes before the
  first later element at which the comparison is not positive. (With a comparison function
  that is not consistent the order is left to the engine; this is the order of the sort
  modelled above for the other queries.)
\<close>

fun insert_rnd :: "(nat \<Rightarrow> rat) \<Rightarrow> nat \<Rightarrow> 'a \<Rightarrow> 'a list \<Rightarrow> 'a list \<times> nat" where
  "insert_rnd rnd k x [] = ([x], k)"
| "insert_rnd rnd k x (y # ys) =
     (if 1 / 2 - rnd k \<le> 0 then (x # y # ys, Suc k)
      else (let (r, k') = insert_rnd rnd (Suc k) x ys in (y # r, k')))"

fun sort_rnd :: "(nat \<Rightarrow> rat) \<Rightarrow> nat \<Rightarrow> 'a list \<Rightarrow> 'a list \<times> nat" where
  "sort_rnd rnd k [] = ([], k)"
| "sort_rnd rnd k (x # xs) = (let (s, k1) = sort_rnd rnd k xs in insert_rnd rnd k1 x s)"

text \<open>
  \<^verbatim>\<open>level\<close> and \<^verbatim>\<open>category\<close> are a \<^verbatim>\<open>Level\<close> or \<^verbatim>\<open>ALL_LEVELS\<close>, a \<^verbatim>\<open>VocabCategory\<close> or
  \<^verbatim>\<open>ALL_CATEGORIES\<close>; the result is \<^verbatim>\<open>english-pos\<close> for a word with a \<^verbatim>\<open>pos\<close> and
  \<^verbatim>\<open>english\<close> otherwise.
\<close>

definition getExistingWords ::
  "(nat \<Rightarrow> rat) \<Rightarrow> db \<Rightarrow> string \<Rightarrow> string \<Rightarrow> string \<Rightarrow> int \<Rightarrow> string list" where
  "getExistingWords rnd d lv cat ty limit =
     (let items0 = (if ty = ''word'' \<or> ty = ''all'' then words d else []);
          items1 = items0 @ (if ty = ''idiom'' \<or> ty = ''all'' then idioms d else []);
          items2 = (if lv \<noteq> ALL_LEVELS then filter (\<lambda>item. level item = lv) items1 else items1);
          items3 = (if cat \<noteq> ALL_CATEGORIES
                    then filter (\<lambda>item. category item = cat) items2 else items2);
          shuffled = fst (sort_rnd rnd 0 items3)
      in map (\<lambda>item. if type item = ''word'' \<and> truthy (pos item)
                      then english item @ ''-'' @ str (pos item) else english item)
           (js_slice shuffled 0 limit))"

subsection \<open>getPaginatedVocabulary\<close>

record filters =
  f_level :: "string option"
  f_category :: "string option"
  f_type :: "string option"
  f_search :: "string option"
  f_sortOrder :: "string option"
  f_frequencyLevel :: "int option"

definition matches :: "(string \<Rightarrow> string) \<Rightarrow> filters \<Rightarrow> VocabDBItem \<Rightarrow> bool" where
  "matches toLowerCase f item =
     (let lowerCaseSearch = map_option toLowerCase (f_search f) in
      if truthy (f_level f) \<and> Some (level item) \<noteq> f_level f then False
      else if truthy (f_category f) \<and> Some (category item) \<noteq> f_category f then False
      else if truthy (f_type f) \<and> Some (type item) \<noteq> f_type f then False
      else if truthy_num (f_frequencyLevel f) \<and> frequencyLevel item \<noteq> f_frequencyLevel f
        then False
      else if truthy lowerCaseSearch
              \<and> \<not> js_includes (toLowerCase (english item)) (str lowerCaseSearch)
              \<and> \<not> js_includes (toLowerCase (japanese item)) (str lowerCaseSearch)
        then False
      else True)"

definition allMatchingItems ::
  "(string \<Rightarrow> string) \<Rightarrow> db \<Rightarrow> filters \<Rightarrow> VocabDBItem list" where
  "allMatchingItems toLowerCase d f =
     (if f_type f \<noteq> Some ''idiom'' then filter (matches toLowerCase f) (words d) else []) @
     (if f_type f \<noteq> Some ''word'' then filter (matches toLowerCase f) (idioms d) else [])"

text \<open>\<^verbatim>\<open>(a.id ?? 0) - (b.id ?? 0)\<close>\<close>

definition id_or_0 :: "VocabDBItem \<Rightarrow> int" where
  "id_or_0 a = (case id' a of None \<Rightarrow> 0 | Some k \<Rightarrow> int k)"

definition sortedMatchingItems ::
  "(string \<Rightarrow> string \<Rightarrow> int) \<Rightarrow> (string \<Rightarrow> string) \<Rightarrow> db \<Rightarrow> filters \<Rightarrow> VocabDBItem list"
  where
  "sortedMatchingItems localeCompare toLowerCase d f =
     (if f_sortOrder f = Some ''alphabetical''
      then js_sort (\<lambda>a b. localeCompare (english a) (english b))
             (allMatchingItems toLowerCase d f)
      else js_sort (\<lambda>a b. id_or_0 a - id_or_0 b) (allMatchingItems toLowerCase d f))"

record page_result =
  items :: "VocabDBItem list"
  total :: nat

definition getPaginatedVocabulary ::
  "(string \<Rightarrow> string \<Rightarrow> int) \<Rightarrow> (string \<Rightarrow> string) \<Rightarrow> db \<Rightarrow> int \<Rightarrow> int \<Rightarrow> filters
   \<Rightarrow> page_result" where
  "getPaginatedVocabulary localeCompare toLowerCase d page itemsPerPage f =
     (let sorted_items = sortedMatchingItems localeCompare toLowerCase d f;
          start = (page - 1) * itemsPerPage
      in \<lparr> items = js_slice sorted_items start (start + itemsPerPage),
           total = length sorted_items \<rparr>)"

subsection \<open>getVocabCount, getAllVocabulary, clearDatabase\<close>

definition getVocabCount :: "db \<Rightarrow> nat" where
  "getVocabCount d = length (words d) + length (idioms d)"

definition getAllVocabulary :: "db \<Rightarrow> VocabDBItem list" where
  "getAllVocabulary d = words d @ idioms d"

text \<open>\<^verbatim>\<open>store.clear()\<close> removes the records and keeps the key generator.\<close>

definition clearDatabase :: "db \<Rightarrow> db" where
  "clearDatabase d = d\<lparr> words := [], idioms := [] \<rparr>"

subsection \<open>updateFrequencyLevels\<close>

record freq_update =
  u_id :: nat
  u_type :: string
  u_frequencyLevel :: int

text \<open>
  \<^verbatim>\<open>store.get(key)\<close>, and \<^verbatim>\<open>store.put(item)\<close> for an item that \<^verbatim>\<open>store.get\<close> returned in
  the same transaction: its key is in the store, and the record under that key is
  replaced.
\<close>

definition store_get :: "VocabDBItem list \<Rightarrow> nat \<Rightarrow> VocabDBItem option" where
  "store_get store k = find (\<lambda>x. id' x = Some k) store"

definition store_put :: "VocabDBItem list \<Rightarrow> VocabDBItem \<Rightarrow> VocabDBItem list" where
  "store_put store v = map (\<lambda>x. if id' x = id' v then v else x) store"

text \<open>
  \<^verbatim>\<open>Promise.all(updates.map(async ...))\<close> starts every callback before any of them
  resumes: all \<^verbatim>\<open>store.get\<close> requests are placed first, in the order of the list, and
  read the stores as they were; each \<^verbatim>\<open>store.put\<close> is placed when its \<^verbatim>\<open>get\<close> has
  answered, so the puts run in the order of the list too.
\<close>

definition fetch_for :: "db \<Rightarrow> freq_update \<Rightarrow> freq_update \<times> VocabDBItem option" where
  "fetch_for d u =
     (u, if u_type u = ''word'' then store_get (words d) (u_id u)
         else store_get (idioms d) (u_id u))"

definition put_for :: "db \<Rightarrow> freq_update \<times> VocabDBItem option \<Rightarrow> db" where
  "put_for d uf =
     (case snd uf of
        None \<Rightarrow> d
      | Some item \<Rightarrow>
          let item' = item\<lparr> frequencyLevel := Some (u_frequencyLevel (fst uf)) \<rparr> in
          if u_type (fst uf) = ''word''
          then d\<lparr> words := store_put (words d) item' \<rparr>
          else d\<lparr> idioms := store_put (idioms d) item' \<rparr>)"

definition updateFrequencyLevels :: "db \<Rightarrow> freq_update list \<Rightarrow> db" where
  "updateFrequencyLevels d updates = foldl put_for d (map (fetch_for d) updates)"

section \<open>Well-formed stores and reachable databases\<close>

text \<open>The uniqueness key of a stored word is the pair of its \<^verbatim>\<open>english\<close> and \<^verbatim>\<open>pos\<close>.\<close>

definition word_key :: "VocabDBItem \<Rightarrow> string \<times> string option" where
  "word_key w = (english w, pos w)"

definition unique_words :: "db \<Rightarrow> bool" where
  "unique_words d = distinct (map word_key (words d))"

definition unique_idioms :: "db \<Rightarrow> bool" where
  "unique_idioms d = distinct (map english (idioms d))"

definition words_wf :: "db \<Rightarrow> bool" where
  "words_wf d = (\<forall>w \<in> set (words d). type w = ''word'' \<and> pos w \<in> Some ` set PARTS_OF_SPEECH)"

definition idioms_wf :: "db \<Rightarrow> bool" where
  "idioms_wf d = (\<forall>i \<in> set (idioms d). type i = ''idiom'')"

text \<open>
  The idioms that \<^verbatim>\<open>addVocabularyItems\<close> stores have \<^verbatim>\<open>pos: null\<close>; an idiom copied from a
  legacy store has the \<^verbatim>\<open>pos\<close> it had there.
\<close>

definition idioms_pos_null :: "db \<Rightarrow> bool" where
  "idioms_pos_null d = (\<forall>i \<in> set (idioms d). pos i = None)"

definition keys_wf :: "VocabDBItem list \<Rightarrow> nat \<Rightarrow> bool" where
  "keys_wf store next_key =
     (distinct (map id' store) \<and> (\<forall>x \<in> set store. \<exists>k. id' x = Some k \<and> k < next_key))"

definition db_inv :: "db \<Rightarrow> bool" where
  "db_inv d = (unique_words d \<and> unique_idioms d \<and> words_wf d \<and> idioms_wf d
               \<and> keys_wf (words d) (wordsNextKey d) \<and> keys_wf (idioms d) (idiomsNextKey d))"

text \<open>
  The databases that the functions of \<^verbatim>\<open>db.ts\<close> produce: the database of a fresh install,
  or the one that the upgrade builds from any legacy store, followed by any calls of
  \<^verbatim>\<open>addVocabularyItems\<close> (with any storage environment), \<^verbatim>\<open>updateFrequencyLevels\<close> and
  \<^verbatim>\<open>clearDatabase\<close>.
\<close>

inductive reachable :: "db \<Rightarrow> bool" where
  init: "reachable empty_db"
| upgraded: "reachable (upgrade legacy)"
| add: "reachable d \<Longrightarrow> reachable (db_after (addVocabularyItems b d xs))"
| update: "reachable d \<Longrightarrow> reachable (updateFrequencyLevels d us)"
| clear: "reachable d \<Longrightarrow> reachable (clearDatabase d)"

text \<open>A sequence of \<^verbatim>\<open>addVocabularyItems\<close> calls, each with its own storage environment.\<close>

definition run_adds :: "db \<Rightarrow> (budget \<times> raw_item option list) list \<Rightarrow> db" where
  "run_adds d calls = foldl (\<lambda>d' c. db_after (addVocabularyItems (fst c) d' (snd c))) d calls"

text \<open>The checks of the loop body, by name.\<close>

definition base_ok :: "raw_item \<Rightarrow> bool" where
  "base_ok it = (\<not> (r_english it = None \<or> \<not> truthy (r_english it) \<or> \<not> truthy (r_type it)))"

definition core_ok :: "raw_item \<Rightarrow> bool" where
  "core_ok it = (\<not> (\<not> truthy (r_japanese it) \<or> \<not> truthy (r_example_en it)
                     \<or> \<not> truthy (r_example_jp it) \<or> \<not> truthy (r_level it)
                     \<or> \<not> truthy (r_category it)))"

definition pos_ok :: "raw_item \<Rightarrow> bool" where
  "pos_ok it = (truthy (r_pos it) \<and> str (r_pos it) \<in> set PARTS_OF_SPEECH)"

definition word_candidate :: "raw_item \<Rightarrow> bool" where
  "word_candidate it = (base_ok it \<and> core_ok it \<and> r_type it = Some ''word'' \<and> pos_ok it)"

definition idiom_candidate :: "raw_item \<Rightarrow> bool" where
  "idiom_candidate it = (base_ok it \<and> core_ok it \<and> r_type it = Some ''idiom'')"

text \<open>Whether the uniqueness key of a candidate is in the database.\<close>

definition key_stored :: "db \<Rightarrow> raw_item \<Rightarrow> bool" where
  "key_stored d it =
     (if r_type it = Some ''word''
      then words_index_get d (str (r_english it), str (r_pos it)) \<noteq> None
      else idioms_index_get d (str (r_english it)) \<noteq> None)"

text \<open>
  The number of awaited requests of one pass through the loop body on database \<open>d\<close>: a
  record that fails a check awaits nothing; a candidate awaits \<^verbatim>\<open>index.get\<close>, and
  \<^verbatim>\<open>store.add\<close> too when the probe finds nothing.
\<close>

definition item_requests :: "db \<Rightarrow> raw_item option \<Rightarrow> nat" where
  "item_requests d x =
     (case x of
        None \<Rightarrow> 0
      | Some it \<Rightarrow>
          if word_candidate it \<or> idiom_candidate it
          then (if key_stored d it then 1 else 2)
          else 0)"

text \<open>
  The requests of the whole loop, along the run of an engine that never fails: each
  record is counted against the working copy that the records before it have left.
\<close>

fun loop_requests :: "tx \<Rightarrow> raw_item option list \<Rightarrow> nat" where
  "loop_requests t [] = 0"
| "loop_requests t (x # xs) =
     item_requests (tx_db t) x
     + (case process_item (t\<lparr> tx_budget := None \<rparr>) x of
          Inl e \<Rightarrow> 0
        | Inr t' \<Rightarrow> loop_requests t' xs)"

text \<open>The requests of one call: those of the loop and the final \<^verbatim>\<open>await tx.done\<close>.\<close>

definition requests_of :: "db \<Rightarrow> raw_item option list \<Rightarrow> nat" where
  "requests_of d xs =
     loop_requests \<lparr> tx_db = d, addedCount = 0, tx_budget = None, console = [] \<rparr> xs + 1"

section \<open>Auxiliary notions for the proofs\<close>

text \<open>
  The effect of one frequency update on a store, record by record; a record with its
  \<^verbatim>\<open>frequencyLevel\<close> forgotten; two databases that differ in frequency levels only.
\<close>

definition set_freq_at :: "nat \<Rightarrow> int \<Rightarrow> VocabDBItem \<Rightarrow> VocabDBItem" where
  "set_freq_at k f x = (if id' x = Some k then x\<lparr> frequencyLevel := Some f \<rparr> else x)"

definition apply_update :: "db \<Rightarrow> freq_update \<Rightarrow> db" where
  "apply_update d u =
     (if u_type u = ''word''
      then d\<lparr> words := map (set_freq_at (u_id u) (u_frequencyLevel u)) (words d) \<rparr>
      else d\<lparr> idioms := map (set_freq_at (u_id u) (u_frequencyLevel u)) (idioms d) \<rparr>)"

definition forget_freq :: "VocabDBItem \<Rightarrow> VocabDBItem" where
  "forget_freq x = x\<lparr> frequencyLevel := None \<rparr>"

definition same_but_freq :: "db \<Rightarrow> db \<Rightarrow> bool" where
  "same_but_freq d d0 =
     (map forget_freq (words d) = map forget_freq (words d0)
      \<and> map forget_freq (idioms d) = map forget_freq (idioms d0))"

section \<open>Example inputs\<close>

definition ex_run_verb :: raw_item where
  "ex_run_verb = \<lparr> r_id = None, r_english = Some ''run'', r_japanese = Some ''hashiru'',
      r_pos = Some ''Verb'', r_example_en = Some ''I run.'', r_example_jp = Some ''Hashiru.'',
      r_level = Some ''Beginner (TOEIC 400-600)'', r_category = Some ''Daily Life'',
      r_type = Some ''word'', r_frequencyLevel = None \<rparr>"

definition ex_run_noun :: raw_item where
  "ex_run_noun = ex_run_verb\<lparr> r_pos := Some ''Noun'', r_japanese := Some ''kyousou'' \<rparr>"

definition ex_idiom :: raw_item where
  "ex_idiom = \<lparr> r_id = None, r_english = Some ''break a leg'', r_japanese = Some ''ganbatte'',
      r_pos = Some ''Verb'', r_example_en = Some ''Break a leg!'', r_example_jp = Some ''Ganbatte!'',
      r_level = Some ''Beginner (TOEIC 400-600)'', r_category = Some ''Daily Life'',
      r_type = Some ''idiom'', r_frequencyLevel = None \<rparr>"

definition ex_calls :: "(budget \<times> raw_item option list) list" where
  "ex_calls = [(None, [Some ex_run_verb, Some ex_run_noun, Some ex_idiom, Some ex_run_verb]),
               (None, [Some ex_idiom, Some ex_run_noun])]"

definition ex_db :: db where
  "ex_db = db_after (addVocabularyItems None empty_db
                       [Some ex_run_verb, Some ex_run_noun, Some ex_idiom])"

section \<open>Valid and invalid records, as the specification words them\<close>

text \<open>
  A field is missing when it is absent or the empty string. A record is invalid when
  it is missing \<^verbatim>\<open>english\<close> or \<^verbatim>\<open>type\<close>, or any of \<^verbatim>\<open>japanese\<close>, \<^verbatim>\<open>example_en\<close>,
  \<^verbatim>\<open>example_jp\<close>, \<^verbatim>\<open>level\<close>, \<^verbatim>\<open>category\<close>, or when it is a word whose \<^verbatim>\<open>pos\<close> is missing or
  not one of the four parts of speech. A valid record is a word or an idiom that is not
  invalid; its uniqueness key is its type, its \<^verbatim>\<open>english\<close> and, for a word, its \<^verbatim>\<open>pos\<close>.
\<close>

definition missing :: "string option \<Rightarrow> bool" where
  "missing v = (v = None \<or> v = Some [])"

definition claim_invalid :: "raw_item option \<Rightarrow> bool" where
  "claim_invalid x =
     (case x of
        None \<Rightarrow> True
      | Some it \<Rightarrow>
          missing (r_english it) \<or> missing (r_type it) \<or> missing (r_japanese it)
          \<or> missing (r_example_en it) \<or> missing (r_example_jp it) \<or> missing (r_level it)
          \<or> missing (r_category it)
          \<or> (r_type it = Some ''word''
              \<and> (missing (r_pos it) \<or> str (r_pos it) \<notin> set PARTS_OF_SPEECH)))"

definition claim_valid :: "raw_item \<Rightarrow> bool" where
  "claim_valid it =
     (\<not> claim_invalid (Some it) \<and> (r_type it = Some ''word'' \<or> r_type it = Some ''idiom''))"

definition item_key :: "raw_item \<Rightarrow> string \<times> string \<times> string option" where
  "item_key it =
     (str (r_type it), str (r_english it),
      if r_type it = Some ''word'' then r_pos it else None)"

section \<open>More auxiliary notions\<close>

text \<open>
  Two transaction states that agree on everything but the console; two outcomes of the
  loop that agree up to the console; a state that extends the stores of another by
  exactly the counted records.
\<close>

definition core_eq :: "tx \<Rightarrow> tx \<Rightarrow> bool" where
  "core_eq t1 t2 = (tx_db t1 = tx_db t2 \<and> addedCount t1 = addedCount t2
                    \<and> tx_budget t1 = tx_budget t2)"

definition outcome_eq :: "(error \<times> log_entry list) + tx \<Rightarrow> (error \<times> log_entry list) + tx \<Rightarrow> bool"
  where
  "outcome_eq r1 r2 =
     (case (r1, r2) of
        (Inl a, Inl b) \<Rightarrow> fst a = fst b
      | (Inr t1, Inr t2) \<Rightarrow> core_eq t1 t2
      | _ \<Rightarrow> False)"

definition grows :: "tx \<Rightarrow> tx \<Rightarrow> bool" where
  "grows t t' =
     (\<exists>ws is. words (tx_db t') = words (tx_db t) @ ws \<and> idioms (tx_db t') = idioms (tx_db t) @ is
        \<and> addedCount t' = addedCount t + length ws + length is)"

section \<open>More example inputs\<close>

definition ex_no_japanese :: raw_item where
  "ex_no_japanese = ex_run_verb\<lparr> r_english := Some ''walk'', r_japanese := None \<rparr>"

definition ex_bad_pos :: raw_item where
  "ex_bad_pos = ex_run_verb\<lparr> r_english := Some ''walk'', r_pos := Some ''Pronoun'' \<rparr>"

definition ex_phrase :: raw_item where
  "ex_phrase = ex_idiom\<lparr> r_english := Some ''by the way'', r_type := Some ''phrase'' \<rparr>"

definition ex_its :: "raw_item list" where
  "ex_its = [ex_run_verb, ex_run_noun, ex_idiom]"

section \<open>Notions for the paginated query\<close>

text \<open>
  The number of pages, \<^verbatim>\<open>Math.ceil(total / itemsPerPage)\<close> as the word-list screen computes
  it; a comparison function that is a total preorder; the filter predicate as the
  specification words it (a record satisfies the filters when it has the given level,
  category, type and frequency level, and when the search text occurs in its \<^verbatim>\<open>english\<close>
  or its \<^verbatim>\<open>japanese\<close> without regard to case: the lower-case search text is a contiguous
  part, \<open>sublist\<close>, of the lower-case field); filters that have the types of
  the interface (a \<^verbatim>\<open>Level\<close>, a \<^verbatim>\<open>VocabCategory\<close>, a \<^verbatim>\<open>VocabType\<close>, a frequency level 1, 2
  or 3).
\<close>

definition page_count :: "nat \<Rightarrow> int \<Rightarrow> nat" where
  "page_count n itemsPerPage = nat \<lceil>(of_nat n :: rat) / of_int itemsPerPage\<rceil>"

definition total_preorder :: "('a \<Rightarrow> 'a \<Rightarrow> int) \<Rightarrow> bool" where
  "total_preorder cmp =
     ((\<forall>a b. cmp a b \<le> 0 \<or> cmp b a \<le> 0)
      \<and> (\<forall>a b c. cmp a b \<le> 0 \<and> cmp b c \<le> 0 \<longrightarrow> cmp a c \<le> 0))"

definition satisfies :: "(string \<Rightarrow> string) \<Rightarrow> filters \<Rightarrow> VocabDBItem \<Rightarrow> bool" where
  "satisfies toLowerCase f r =
     ((case f_level f of None \<Rightarrow> True | Some l \<Rightarrow> level r = l)
      \<and> (case f_category f of None \<Rightarrow> True | Some c \<Rightarrow> category r = c)
      \<and> (case f_type f of None \<Rightarrow> True | Some t \<Rightarrow> type r = t)
      \<and> (case f_frequencyLevel f of None \<Rightarrow> True | Some n \<Rightarrow> frequencyLevel r = Some n)
      \<and> (case f_search f of None \<Rightarrow> True
          | Some s \<Rightarrow> sublist (toLowerCase s) (toLowerCase (english r))
                     \<or> sublist (toLowerCase s) (toLowerCase (japanese r))))"

definition filters_typed :: "filters \<Rightarrow> bool" where
  "filters_typed f =
     ((case f_level f of None \<Rightarrow> True | Some l \<Rightarrow> l \<in> set LEVELS)
      \<and> (case f_category f of None \<Rightarrow> True | Some c \<Rightarrow> c \<in> set VOCAB_CATEGORIES)
      \<and> (case f_type f of None \<Rightarrow> True | Some t \<Rightarrow> t = ''word'' \<or> t = ''idiom'')
      \<and> (case f_frequencyLevel f of None \<Rightarrow> True | Some n \<Rightarrow> n = 1 \<or> n = 2 \<or> n = 3))"

definition ex_no_filters :: filters where
  "ex_no_filters = \<lparr> f_level = None, f_category = None, f_type = None, f_search = None,
                     f_sortOrder = Some ''default'', f_frequencyLevel = None \<rparr>"

definition ex_filters :: filters where
  "ex_filters = \<lparr> f_level = Some ''Beginner (TOEIC 400-600)'', f_category = None,
                  f_type = Some ''word'', f_search = Some ''RUN'',
                  f_sortOrder = Some ''alphabetical'', f_frequencyLevel = None \<rparr>"

section \<open>Notions for the frequency updates\<close>

text \<open>
  The store that the \<^verbatim>\<open>type\<close> of an update selects (\<^verbatim>\<open>update.type === 'word' ? wordsStore :
  idiomsStore\<close>), and two updates that address the same key of the same store.
\<close>

definition store_of :: "db \<Rightarrow> freq_update \<Rightarrow> VocabDBItem list" where
  "store_of d u = (if u_type u = ''word'' then words d else idioms d)"

definition same_target :: "freq_update \<Rightarrow> freq_update \<Rightarrow> bool" where
  "same_target v u = ((u_type v = ''word'') = (u_type u = ''word'') \<and> u_id v = u_id u)"

definition ex_up1 :: freq_update where
  "ex_up1 = \<lparr> u_id = 1, u_type = ''word'', u_frequencyLevel = 1 \<rparr>"

definition ex_up2 :: freq_update where
  "ex_up2 = \<lparr> u_id = 1, u_type = ''word'', u_frequencyLevel = 3 \<rparr>"

definition ex_up_absent :: freq_update where
  "ex_up_absent = \<lparr> u_id = 7, u_type = ''word'', u_frequencyLevel = 2 \<rparr>"

definition ex_up_idiom :: freq_update where
  "ex_up_idiom = \<lparr> u_id = 1, u_type = ''idiom'', u_frequencyLevel = 2 \<rparr>"

definition ex_updates :: "freq_update list" where
  "ex_updates = [ex_up1, ex_up2]"

section \<open>A legacy record\<close>

text \<open>An idiom of a legacy store that has a \<^verbatim>\<open>pos\<close>; its other fields are those of \<open>ex_idiom\<close>.\<close>

definition ex_legacy_idiom :: VocabDBItem where
  "ex_legacy_idiom =
     \<lparr> id' = Some 5, english = ''break a leg'', japanese = ''ganbatte'', pos = Some ''Verb'',
       example_en = ''Break a leg!'', example_jp = ''Ganbatte!'',
       level = ''Beginner (TOEIC 400-600)'', category = ''Daily Life'', type = ''idiom'',
       frequencyLevel = None \<rparr>"

section \<open>Random draws for evaluation\<close>

text \<open>
  A stream of draws given by coin flips: \<open>3/4\<close> (the comparison \<^verbatim>\<open>0.5 - Math.random()\<close> is
  negative) or \<open>1/4\<close> (it is positive), each of probability one half under uniform
  draws; the eight sequences of three flips; and the stream that always draws \<open>1/2\<close>.
\<close>

definition draws :: "bool list \<Rightarrow> nat \<Rightarrow> rat" where
  "draws bs k = (if k < length bs \<and> bs ! k then 3 / 4 else 1 / 4)"

definition all_flips3 :: "bool list list" where
  "all_flips3 = [[a, b, c]. a \<leftarrow> [False, True], b \<leftarrow> [False, True], c \<leftarrow> [False, True]]"

definition ex_half :: "nat \<Rightarrow> rat" where
  "ex_half k = 1 / 2"

section \<open>The loop body\<close>

lemma process_item_null:
  "process_item t None = Inr (warn t (WarnInvalidBase None))"
  by (simp add: process_item_def)

lemma process_item_bad_base:
  "\<not> base_ok it \<Longrightarrow> process_item t (Some it) = Inr (warn t (WarnInvalidBase (Some it)))"
  by (auto simp: process_item_def base_ok_def)

lemma process_item_bad_core:
  "base_ok it \<Longrightarrow> \<not> core_ok it \<Longrightarrow> process_item t (Some it) = Inr (warn t (WarnMissingCore it))"
  by (auto simp: process_item_def base_ok_def core_ok_def)

lemma process_item_bad_pos:
  "base_ok it \<Longrightarrow> core_ok it \<Longrightarrow> r_type it = Some ''word'' \<Longrightarrow> \<not> pos_ok it
   \<Longrightarrow> process_item t (Some it) = Inr (warn t (WarnBadPos it))"
  by (auto simp: process_item_def base_ok_def core_ok_def pos_ok_def)

lemma process_item_other_type:
  "base_ok it \<Longrightarrow> core_ok it \<Longrightarrow> r_type it \<noteq> Some ''word'' \<Longrightarrow> r_type it \<noteq> Some ''idiom''
   \<Longrightarrow> process_item t (Some it) = Inr t"
  by (auto simp: process_item_def base_ok_def core_ok_def)

lemma process_item_word:
  "word_candidate it \<Longrightarrow>
   process_item t (Some it) =
     (case request (tx_budget t) of
        Inl e \<Rightarrow> Inl (e, console t)
      | Inr b1 \<Rightarrow>
          (case words_index_get (tx_db t) (str (r_english it), str (r_pos it)) of
             Some existing \<Rightarrow> Inr (t\<lparr> tx_budget := b1 \<rparr>)
           | None \<Rightarrow>
               (case request b1 of
                  Inl e \<Rightarrow> Inl (e, console t)
                | Inr b2 \<Rightarrow>
                    (case words_add (tx_db t) (data_of it) of
                       Inl e \<Rightarrow> Inl (e, console t)
                     | Inr d' \<Rightarrow>
                         Inr (t\<lparr> tx_db := d', addedCount := addedCount t + 1,
                                 tx_budget := b2 \<rparr>)))))"
  by (auto simp: process_item_def word_candidate_def base_ok_def core_ok_def pos_ok_def)

lemma process_item_idiom:
  "idiom_candidate it \<Longrightarrow>
   process_item t (Some it) =
     (case request (tx_budget t) of
        Inl e \<Rightarrow> Inl (e, console t)
      | Inr b1 \<Rightarrow>
          (case idioms_index_get (tx_db t) (str (r_english it)) of
             Some existing \<Rightarrow> Inr (t\<lparr> tx_budget := b1 \<rparr>)
           | None \<Rightarrow>
               (case request b1 of
                  Inl e \<Rightarrow> Inl (e, console t)
                | Inr b2 \<Rightarrow>
                    (case idioms_add (tx_db t) ((data_of it)\<lparr> pos := None \<rparr>) of
                       Inl e \<Rightarrow> Inl (e, console t)
                     | Inr d' \<Rightarrow>
                         Inr (t\<lparr> tx_db := d', addedCount := addedCount t + 1,
                                 tx_budget := b2 \<rparr>)))))"
  by (auto simp: process_item_def idiom_candidate_def base_ok_def core_ok_def)

lemma item_cases:
  obtains (null) "x = None"
  | (bad_base) it where "x = Some it" "\<not> base_ok it"
  | (bad_core) it where "x = Some it" "base_ok it" "\<not> core_ok it"
  | (bad_pos) it where "x = Some it" "base_ok it" "core_ok it" "r_type it = Some ''word''"
      "\<not> pos_ok it"
  | (word) it where "x = Some it" "word_candidate it"
  | (idiom) it where "x = Some it" "idiom_candidate it"
  | (other) it where "x = Some it" "base_ok it" "core_ok it" "r_type it \<noteq> Some ''word''"
      "r_type it \<noteq> Some ''idiom''"
  by (cases x) (auto simp: word_candidate_def idiom_candidate_def)

section \<open>Invariants of the stores\<close>

lemma words_index_get_None:
  "words_index_get d k = None \<longleftrightarrow> (\<forall>w \<in> set (words d). word_key w \<noteq> (fst k, Some (snd k)))"
  by (auto simp: words_index_get_def find_None_iff word_key_def)

lemma idioms_index_get_None:
  "idioms_index_get d e = None \<longleftrightarrow> e \<notin> english ` set (idioms d)"
  by (auto simp: idioms_index_get_def find_None_iff)

lemma words_add_Inr:
  "words_add d v = Inr d' \<Longrightarrow>
   d' = d\<lparr> words := words d @ [v\<lparr> id' := Some (wordsNextKey d) \<rparr>],
          wordsNextKey := wordsNextKey d + 1 \<rparr>"
  by (auto simp: words_add_def split: if_splits)

lemma idioms_add_Inr:
  "idioms_add d v = Inr d' \<Longrightarrow>
   d' = d\<lparr> idioms := idioms d @ [v\<lparr> id' := Some (idiomsNextKey d) \<rparr>],
          idiomsNextKey := idiomsNextKey d + 1 \<rparr>"
  by (auto simp: idioms_add_def split: if_splits)

lemma keys_wf_snoc:
  "keys_wf store n \<Longrightarrow> keys_wf (store @ [v\<lparr> id' := Some n \<rparr>]) (Suc n)"
  by (fastforce simp: keys_wf_def less_Suc_eq)

lemma db_inv_words_add:
  assumes "db_inv d" "words_add d v = Inr d'" "type v = ''word''"
    "pos v \<in> Some ` set PARTS_OF_SPEECH"
  shows "db_inv d'"
proof -
  obtain p where p: "pos v = Some p" using assms(4) by auto
  have none: "words_index_get d (english v, p) = None"
    using assms(2) p by (auto simp: words_add_def split: if_splits)
  have d': "d' = d\<lparr> words := words d @ [v\<lparr> id' := Some (wordsNextKey d) \<rparr>],
          wordsNextKey := wordsNextKey d + 1 \<rparr>"
    using assms(2) by (rule words_add_Inr)
  have "word_key (v\<lparr> id' := Some (wordsNextKey d) \<rparr>) \<notin> word_key ` set (words d)"
    using none p by (auto simp: words_index_get_None word_key_def)
  then show ?thesis
    using assms(1,3,4) unfolding d' db_inv_def
    by (simp add: unique_words_def unique_idioms_def words_wf_def idioms_wf_def keys_wf_snoc)
qed

lemma db_inv_idioms_add:
  assumes "db_inv d" "idioms_add d v = Inr d'" "type v = ''idiom''"
  shows "db_inv d'"
proof -
  have none: "idioms_index_get d (english v) = None"
    using assms(2) by (auto simp: idioms_add_def split: if_splits)
  have d': "d' = d\<lparr> idioms := idioms d @ [v\<lparr> id' := Some (idiomsNextKey d) \<rparr>],
          idiomsNextKey := idiomsNextKey d + 1 \<rparr>"
    using assms(2) by (rule idioms_add_Inr)
  show ?thesis
    using assms(1,3) none unfolding d' db_inv_def
    by (simp add: unique_words_def unique_idioms_def words_wf_def idioms_wf_def keys_wf_snoc
        idioms_index_get_None)
qed

lemma data_of_simps [simp]:
  "english (data_of it) = str (r_english it)"
  "pos (data_of it) = r_pos it"
  "type (data_of it) = str (r_type it)"
  by (simp_all add: data_of_def)

lemma truthy_str: "truthy v \<Longrightarrow> v = Some (str v)"
  by (cases v) (auto simp: truthy_def str_def)

lemma process_item_db_inv:
  assumes "db_inv (tx_db t)" "process_item t x = Inr t'"
  shows "db_inv (tx_db t')"
proof (cases x rule: item_cases)
  case (word it)
  have "type (data_of it) = ''word''" using word(2) by (simp add: word_candidate_def str_def)
  moreover have "pos (data_of it) \<in> Some ` set PARTS_OF_SPEECH"
    using word(2) truthy_str[of "r_pos it"] by (auto simp: word_candidate_def pos_ok_def)
  ultimately show ?thesis
    using assms word
    by (auto simp: process_item_word split: sum.splits option.splits
        intro: db_inv_words_add)
next
  case (idiom it)
  have "type (data_of it) = ''idiom''" using idiom(2) by (simp add: idiom_candidate_def str_def)
  then show ?thesis
    using assms idiom
    by (auto simp: process_item_idiom split: sum.splits option.splits
        intro: db_inv_idioms_add)
qed (use assms in \<open>auto simp: process_item_null process_item_bad_base process_item_bad_core
      process_item_bad_pos process_item_other_type warn_def\<close>)

lemma addLoop_db_inv:
  "db_inv (tx_db t) \<Longrightarrow> addLoop t xs = Inr t' \<Longrightarrow> db_inv (tx_db t')"
  by (induction xs arbitrary: t) (auto split: sum.splits dest: process_item_db_inv)

lemma addVocabularyItems_db_inv:
  assumes "db_inv d"
  shows "db_inv (db_after (addVocabularyItems b d xs))"
proof (cases "addLoop \<lparr> tx_db = d, addedCount = 0, tx_budget = b, console = [] \<rparr> xs")
  case (Inl e)
  then show ?thesis using assms by (simp add: addVocabularyItems_def split: prod.splits)
next
  case (Inr t)
  have "db_inv (tx_db t)"
    using addLoop_db_inv[OF _ Inr] assms by simp
  then show ?thesis
    using assms Inr by (simp add: addVocabularyItems_def split: sum.splits)
qed

lemma db_inv_empty: "db_inv empty_db"
  by (simp add: db_inv_def empty_db_def unique_words_def unique_idioms_def words_wf_def
      idioms_wf_def keys_wf_def)

lemma db_inv_clear: "db_inv d \<Longrightarrow> db_inv (clearDatabase d)"
  by (simp add: db_inv_def clearDatabase_def unique_words_def unique_idioms_def words_wf_def
      idioms_wf_def keys_wf_def)


lemma forget_freq_id: "forget_freq x = forget_freq y \<Longrightarrow> id' x = id' y"
proof -
  assume "forget_freq x = forget_freq y"
  then have "id' (forget_freq x) = id' (forget_freq y)" by simp
  then show ?thesis by (simp add: forget_freq_def)
qed

lemma forget_freq_set:
  assumes "forget_freq x = forget_freq y"
  shows "x\<lparr> frequencyLevel := f \<rparr> = y\<lparr> frequencyLevel := f \<rparr>"
proof -
  have "x\<lparr> frequencyLevel := f \<rparr> = (forget_freq x)\<lparr> frequencyLevel := f \<rparr>"
    by (simp add: forget_freq_def)
  also have "\<dots> = (forget_freq y)\<lparr> frequencyLevel := f \<rparr>"
    using assms by simp
  also have "\<dots> = y\<lparr> frequencyLevel := f \<rparr>"
    by (simp add: forget_freq_def)
  finally show ?thesis .
qed

lemma forget_set_freq_at [simp]: "forget_freq (set_freq_at k f x) = forget_freq x"
  by (simp add: forget_freq_def set_freq_at_def)

lemma same_forget_ex:
  assumes "map forget_freq cur = map forget_freq orig" "x \<in> set cur"
  shows "\<exists>y \<in> set orig. forget_freq x = forget_freq y"
proof -
  have "forget_freq ` set cur = forget_freq ` set orig"
    using arg_cong[OF assms(1), of set] by simp
  then have "forget_freq x \<in> forget_freq ` set orig"
    using assms(2) by blast
  then show ?thesis by blast
qed

lemma store_put_fetched:
  assumes same: "map forget_freq cur = map forget_freq orig"
    and dist: "distinct (map id' orig)"
  shows "(case store_get orig k of None \<Rightarrow> cur
          | Some item \<Rightarrow> store_put cur (item\<lparr> frequencyLevel := Some f \<rparr>))
         = map (set_freq_at k f) cur"
proof (cases "store_get orig k")
  case None
  then have no: "\<forall>y \<in> set orig. id' y \<noteq> Some k"
    by (simp add: store_get_def find_None_iff)
  have "id' x \<noteq> Some k" if xin: "x \<in> set cur" for x
  proof -
    obtain y where "y \<in> set orig" "forget_freq x = forget_freq y"
      using same_forget_ex[OF same xin] by blast
    then show ?thesis using no forget_freq_id[of x y] by simp
  qed
  then have "map (set_freq_at k f) cur = cur"
    by (simp add: set_freq_at_def map_idI)
  then show ?thesis using None by simp
next
  case (Some item)
  then have item: "item \<in> set orig" "id' item = Some k"
    by (auto simp: store_get_def find_Some_iff)
  have "(if id' x = id' (item\<lparr> frequencyLevel := Some f \<rparr>)
         then item\<lparr> frequencyLevel := Some f \<rparr> else x) = set_freq_at k f x"
    if xin: "x \<in> set cur" for x
  proof (cases "id' x = Some k")
    case True
    obtain y where y: "y \<in> set orig" "forget_freq x = forget_freq y"
      using same_forget_ex[OF same xin] by blast
    then have "id' y = Some k" using True forget_freq_id[of x y] by simp
    then have "y = item" using dist y(1) item by (simp add: distinct_map inj_on_def)
    then show ?thesis
      using True forget_freq_set[OF y(2), of "Some f"] item(2) by (simp add: set_freq_at_def)
  next
    case False
    then show ?thesis using item(2) by (simp add: set_freq_at_def)
  qed
  then show ?thesis using Some by (simp add: store_put_def)
qed

lemma put_for_fetch_for:
  assumes "same_but_freq d d0" "distinct (map id' (words d0))" "distinct (map id' (idioms d0))"
  shows "put_for d (fetch_for d0 u) = apply_update d u"
proof (cases "u_type u = ''word''")
  case True
  have "(case store_get (words d0) (u_id u) of None \<Rightarrow> words d
          | Some item \<Rightarrow> store_put (words d) (item\<lparr> frequencyLevel := Some (u_frequencyLevel u) \<rparr>))
         = map (set_freq_at (u_id u) (u_frequencyLevel u)) (words d)"
    using assms(1,2) by (intro store_put_fetched) (simp_all add: same_but_freq_def)
  then show ?thesis
    using True
    by (cases "store_get (words d0) (u_id u)")
      (simp_all add: put_for_def fetch_for_def apply_update_def)
next
  case False
  have "(case store_get (idioms d0) (u_id u) of None \<Rightarrow> idioms d
          | Some item \<Rightarrow> store_put (idioms d) (item\<lparr> frequencyLevel := Some (u_frequencyLevel u) \<rparr>))
         = map (set_freq_at (u_id u) (u_frequencyLevel u)) (idioms d)"
    using assms(1,3) by (intro store_put_fetched) (simp_all add: same_but_freq_def)
  then show ?thesis
    using False
    by (cases "store_get (idioms d0) (u_id u)")
      (simp_all add: put_for_def fetch_for_def apply_update_def)
qed

lemma same_but_freq_apply_update:
  "same_but_freq d d0 \<Longrightarrow> same_but_freq (apply_update d u) d0"
  by (auto simp: same_but_freq_def apply_update_def comp_def)

lemma foldl_put_for:
  assumes "same_but_freq d d0" "distinct (map id' (words d0))" "distinct (map id' (idioms d0))"
  shows "foldl put_for d (map (fetch_for d0) us) = foldl apply_update d us"
  using assms(1)
proof (induction us arbitrary: d)
  case Nil
  then show ?case by simp
next
  case (Cons u us)
  then show ?case
    using put_for_fetch_for[OF Cons.prems assms(2,3)] same_but_freq_apply_update
    by simp
qed

lemma updateFrequencyLevels_eq:
  assumes "distinct (map id' (words d))" "distinct (map id' (idioms d))"
  shows "updateFrequencyLevels d us = foldl apply_update d us"
  unfolding updateFrequencyLevels_def
  by (rule foldl_put_for[OF _ assms]) (simp add: same_but_freq_def)

lemma set_freq_at_fields [simp]:
  "id' (set_freq_at k f x) = id' x"
  "word_key (set_freq_at k f x) = word_key x"
  "english (set_freq_at k f x) = english x"
  "type (set_freq_at k f x) = type x"
  "pos (set_freq_at k f x) = pos x"
  by (simp_all add: set_freq_at_def word_key_def)

lemma db_inv_apply_update: "db_inv d \<Longrightarrow> db_inv (apply_update d u)"
  by (auto simp: db_inv_def apply_update_def unique_words_def unique_idioms_def words_wf_def
      idioms_wf_def keys_wf_def comp_def)

lemma db_inv_foldl_apply_update: "db_inv d \<Longrightarrow> db_inv (foldl apply_update d us)"
  by (induction us arbitrary: d) (auto simp: db_inv_apply_update)

lemma db_inv_update: "db_inv d \<Longrightarrow> db_inv (updateFrequencyLevels d us)"
  using updateFrequencyLevels_eq[of d us] db_inv_foldl_apply_update[of d us]
  by (simp add: db_inv_def keys_wf_def)

lemma db_inv_migrate_item: "db_inv d \<Longrightarrow> db_inv (migrate_item d item)"
proof -
  assume inv: "db_inv d"
  let ?data = "item\<lparr> id' := None \<rparr>"
  show ?thesis
  proof (cases "type item = ''word'' \<and> truthy (pos item)
                \<and> str (pos item) \<in> set PARTS_OF_SPEECH")
    case True
    then have p: "pos ?data \<in> Some ` set PARTS_OF_SPEECH"
      using truthy_str[of "pos item"] by auto
    have ty: "type ?data = ''word''" using True by simp
    show ?thesis
    proof (cases "words_add d ?data")
      case (Inl e)
      then show ?thesis using inv True by (simp add: migrate_item_def)
    next
      case (Inr d')
      then show ?thesis
        using db_inv_words_add[OF inv Inr ty p] True by (simp add: migrate_item_def)
    qed
  next
    case False
    show ?thesis
    proof (cases "type item = ''idiom''")
      case i: True
      then have ty: "type ?data = ''idiom''" by simp
      show ?thesis
      proof (cases "idioms_add d ?data")
        case (Inl e)
        then show ?thesis using inv False i by (simp add: migrate_item_def)
      next
        case (Inr d')
        then show ?thesis
          using db_inv_idioms_add[OF inv Inr ty] False i by (simp add: migrate_item_def)
      qed
    next
      case n: False
      then show ?thesis using inv False by (auto simp: migrate_item_def Let_def)
    qed
  qed
qed

lemma db_inv_foldl_migrate: "db_inv d \<Longrightarrow> db_inv (foldl migrate_item d legacy)"
  by (induction legacy arbitrary: d) (simp_all add: db_inv_migrate_item)

lemma db_inv_upgrade: "db_inv (upgrade legacy)"
  unfolding upgrade_def by (rule db_inv_foldl_migrate) (rule db_inv_empty)

lemma reachable_db_inv: "reachable d \<Longrightarrow> db_inv d"
  by (induction rule: reachable.induct)
    (auto simp: db_inv_empty db_inv_upgrade addVocabularyItems_db_inv db_inv_update
      db_inv_clear)

section \<open>Uniqueness of the stored keys\<close>

lemma distinct_map_filter_le1:
  "distinct (map f xs) \<Longrightarrow> length (filter (\<lambda>x. f x = k) xs) \<le> 1"
  by (induction xs) (auto simp: filter_empty_conv image_iff)

lemma reachable_run_adds: "reachable d \<Longrightarrow> reachable (run_adds d calls)"
  unfolding run_adds_def
  by (induction calls arbitrary: d) (auto intro: reachable.add)

lemma process_item_stored:
  assumes "word_candidate it \<or> idiom_candidate it" "key_stored (tx_db t) it"
  shows "case process_item t (Some it) of
           Inl e \<Rightarrow> tx_budget t = Some 0
         | Inr t' \<Rightarrow> tx_db t' = tx_db t \<and> addedCount t' = addedCount t \<and> console t' = console t"
proof -
  consider (w) "word_candidate it" | (i) "idiom_candidate it" "\<not> word_candidate it"
    using assms(1) by blast
  then show ?thesis
  proof cases
    case w
    then have "words_index_get (tx_db t) (str (r_english it), str (r_pos it)) \<noteq> None"
      using assms(2) by (simp add: key_stored_def word_candidate_def)
    then show ?thesis
      using w by (cases "tx_budget t" rule: request.cases) (auto simp: process_item_word)
  next
    case i
    then have "idioms_index_get (tx_db t) (str (r_english it)) \<noteq> None"
      using assms(2) by (auto simp: key_stored_def idiom_candidate_def)
    then show ?thesis
      using i(1) by (cases "tx_budget t" rule: request.cases) (auto simp: process_item_idiom)
  qed
qed

text \<open>
  Claim C1. From any reachable database, after any sequence of \<^verbatim>\<open>addVocabularyItems\<close>
  calls (whatever the storage does in each), the \<^verbatim>\<open>words\<close> store holds at most one
  record for each pair of \<^verbatim>\<open>english\<close> and \<^verbatim>\<open>pos\<close>, and the \<^verbatim>\<open>idioms\<close> store at most one
  record for each \<^verbatim>\<open>english\<close>. A candidate that passes validation and whose uniqueness
  key is already in the working copy is skipped by the loop body: unless the index
  lookup itself is rejected by the storage, the stores and \<^verbatim>\<open>addedCount\<close> are as before.
\<close>

theorem addVocabularyItems_unique:
  "reachable d \<Longrightarrow>
   (\<forall>e p. length (filter (\<lambda>w. english w = e \<and> pos w = p) (words (run_adds d calls))) \<le> 1)
   \<and> (\<forall>e. length (filter (\<lambda>i. english i = e) (idioms (run_adds d calls))) \<le> 1)
   \<and> (\<forall>t it. (word_candidate it \<or> idiom_candidate it) \<and> key_stored (tx_db t) it \<longrightarrow>
         (case process_item t (Some it) of
            Inl e \<Rightarrow> tx_budget t = Some 0
          | Inr t' \<Rightarrow> tx_db t' = tx_db t \<and> addedCount t' = addedCount t))"
proof -
  assume "reachable d"
  then have inv: "db_inv (run_adds d calls)"
    by (intro reachable_db_inv reachable_run_adds)
  have w: "length (filter (\<lambda>w. english w = e \<and> pos w = p) (words (run_adds d calls))) \<le> 1"
    for e p
    using distinct_map_filter_le1[of word_key "words (run_adds d calls)" "(e, p)"] inv
    by (simp add: db_inv_def unique_words_def word_key_def)
  have i: "length (filter (\<lambda>i. english i = e) (idioms (run_adds d calls))) \<le> 1" for e
    using distinct_map_filter_le1[of english "idioms (run_adds d calls)" e] inv
    by (simp add: db_inv_def unique_idioms_def)
  have s: "case process_item t (Some it) of
            Inl e \<Rightarrow> tx_budget t = Some 0
          | Inr t' \<Rightarrow> tx_db t' = tx_db t \<and> addedCount t' = addedCount t"
    if "(word_candidate it \<or> idiom_candidate it) \<and> key_stored (tx_db t) it" for t it
    using process_item_stored[of it t] that by (auto split: sum.splits)
  show ?thesis using w i s by blast
qed

theorem addVocabularyItems_unique_witness:
  "reachable empty_db
   \<and> length (filter (\<lambda>w. english w = ''run'' \<and> pos w = Some ''Verb'')
              (words (run_adds empty_db ex_calls))) \<le> 1
   \<and> length (filter (\<lambda>i. english i = ''break a leg'') (idioms (run_adds empty_db ex_calls))) \<le> 1
   \<and> (word_candidate ex_run_verb \<or> idiom_candidate ex_run_verb)
   \<and> key_stored ex_db ex_run_verb
   \<and> (case process_item \<lparr> tx_db = ex_db, addedCount = 0, tx_budget = None, console = [] \<rparr>
               (Some ex_run_verb) of
         Inl e \<Rightarrow> False
       | Inr t' \<Rightarrow> tx_db t' = ex_db \<and> addedCount t' = 0)
   \<and> map english (words (run_adds empty_db ex_calls)) = [''run'', ''run'']
   \<and> map english (idioms (run_adds empty_db ex_calls)) = [''break a leg'']"
proof -
  let ?t = "\<lparr> tx_db = ex_db, addedCount = 0, tx_budget = None, console = [] \<rparr>"
  have r: "reachable empty_db" by (rule reachable.init)
  note u = addVocabularyItems_unique[OF r, of ex_calls]
  have c: "word_candidate ex_run_verb \<or> idiom_candidate ex_run_verb" by code_simp
  have k: "key_stored ex_db ex_run_verb" by code_simp
  have "case process_item ?t (Some ex_run_verb) of
         Inl e \<Rightarrow> tx_budget ?t = Some 0
       | Inr t' \<Rightarrow> tx_db t' = tx_db ?t \<and> addedCount t' = addedCount ?t"
    using u c k by simp
  then have s: "case process_item ?t (Some ex_run_verb) of
         Inl e \<Rightarrow> False
       | Inr t' \<Rightarrow> tx_db t' = ex_db \<and> addedCount t' = 0"
    by (simp split: sum.splits)
  have w: "map english (words (run_adds empty_db ex_calls)) = [''run'', ''run'']" by code_simp
  have i: "map english (idioms (run_adds empty_db ex_calls)) = [''break a leg'']" by code_simp
  show ?thesis using r u c k s w i by blast
qed

section \<open>Counting, skipping and aborting in addVocabularyItems\<close>

lemma addLoop_append:
  "addLoop t (xs @ ys) = (case addLoop t xs of Inl e \<Rightarrow> Inl e | Inr t' \<Rightarrow> addLoop t' ys)"
  by (induction xs arbitrary: t) (auto split: sum.splits)

lemma missing_truthy: "missing v \<longleftrightarrow> \<not> truthy v"
  by (cases v) (auto simp: missing_def truthy_def)

lemma claim_invalid_warns:
  assumes "claim_invalid x"
  shows "\<exists>w. process_item t x = Inr (warn t w)"
proof (cases x rule: item_cases)
  case null
  then show ?thesis by (auto simp: process_item_null)
next
  case (bad_base it)
  then show ?thesis by (auto simp: process_item_bad_base)
next
  case (bad_core it)
  then show ?thesis by (auto simp: process_item_bad_core)
next
  case (bad_pos it)
  then show ?thesis by (auto simp: process_item_bad_pos)
next
  case (word it)
  then show ?thesis
    using assms
    by (auto simp: claim_invalid_def missing_truthy word_candidate_def base_ok_def core_ok_def
        pos_ok_def)
next
  case (idiom it)
  then show ?thesis
    using assms
    by (auto simp: claim_invalid_def missing_truthy idiom_candidate_def base_ok_def core_ok_def)
next
  case (other it)
  then show ?thesis
    using assms
    by (auto simp: claim_invalid_def missing_truthy base_ok_def core_ok_def)
qed

lemma core_eq_refl [simp]: "core_eq t t"
  by (simp add: core_eq_def)

lemma core_eq_warn [simp]: "core_eq (warn t w) t2 = core_eq t t2" "core_eq t (warn t2 w) = core_eq t t2"
  by (simp_all add: core_eq_def warn_def)

lemma process_item_core_eq:
  assumes "core_eq t1 t2"
  shows "outcome_eq (process_item t1 x) (process_item t2 x)"
proof (cases x rule: item_cases)
  case (word it)
  then show ?thesis
    using assms
    by (auto simp: process_item_word outcome_eq_def core_eq_def split: sum.splits option.splits)
next
  case (idiom it)
  then show ?thesis
    using assms
    by (auto simp: process_item_idiom outcome_eq_def core_eq_def split: sum.splits option.splits)
qed (use assms in \<open>auto simp: process_item_null process_item_bad_base process_item_bad_core
      process_item_bad_pos process_item_other_type outcome_eq_def\<close>)

lemma addLoop_core_eq:
  "core_eq t1 t2 \<Longrightarrow> outcome_eq (addLoop t1 xs) (addLoop t2 xs)"
proof (induction xs arbitrary: t1 t2)
  case Nil
  then show ?case by (simp add: outcome_eq_def)
next
  case (Cons x xs)
  note step = process_item_core_eq[OF Cons.prems, of x]
  show ?case
  proof (cases "process_item t1 x")
    case (Inl a)
    then show ?thesis using step by (auto simp: outcome_eq_def split: sum.splits)
  next
    case l: (Inr u1)
    then obtain u2 where r: "process_item t2 x = Inr u2" "core_eq u1 u2"
      using step by (auto simp: outcome_eq_def split: sum.splits)
    show ?thesis using Cons.IH[OF r(2)] l r(1) by simp
  qed
qed

lemma process_item_total:
  assumes "tx_budget t = None"
  shows "\<exists>t'. process_item t x = Inr t' \<and> tx_budget t' = None"
proof (cases x rule: item_cases)
  case (word it)
  have p: "r_pos it = Some (str (r_pos it))"
    using word(2) by (auto simp: word_candidate_def pos_ok_def truthy_str)
  show ?thesis
  proof (cases "words_index_get (tx_db t) (str (r_english it), str (r_pos it))")
    case None
    then have "\<exists>d'. words_add (tx_db t) (data_of it) = Inr d'"
      using p by (auto simp: words_add_def split: option.splits)
    then show ?thesis
      using word assms None by (auto simp: process_item_word)
  next
    case (Some a)
    then show ?thesis using word assms by (auto simp: process_item_word)
  qed
next
  case (idiom it)
  show ?thesis
  proof (cases "idioms_index_get (tx_db t) (str (r_english it))")
    case None
    then have "\<exists>d'. idioms_add (tx_db t) ((data_of it)\<lparr> pos := None \<rparr>) = Inr d'"
      by (auto simp: idioms_add_def)
    then show ?thesis
      using idiom assms None by (auto simp: process_item_idiom)
  next
    case (Some a)
    then show ?thesis using idiom assms by (auto simp: process_item_idiom)
  qed
qed (use assms in \<open>auto simp: process_item_null process_item_bad_base process_item_bad_core
      process_item_bad_pos process_item_other_type warn_def\<close>)

lemma addLoop_total:
  "tx_budget t = None \<Longrightarrow> \<exists>t'. addLoop t xs = Inr t' \<and> tx_budget t' = None"
proof (induction xs arbitrary: t)
  case Nil
  then show ?case by simp
next
  case (Cons x xs)
  obtain t1 where "process_item t x = Inr t1" "tx_budget t1 = None"
    using process_item_total[OF Cons.prems] by blast
  then show ?case using Cons.IH[of t1] by simp
qed

lemma grows_refl [simp]: "grows t t" "grows t (warn t w)" "grows t (t\<lparr> tx_budget := b \<rparr>)"
  by (simp_all add: grows_def warn_def)

lemma grows_trans: "grows t1 t2 \<Longrightarrow> grows t2 t3 \<Longrightarrow> grows t1 t3"
  by (auto simp: grows_def)

lemma process_item_grows:
  assumes "process_item t x = Inr t'"
  shows "grows t t'"
proof (cases x rule: item_cases)
  case (word it)
  then show ?thesis
    using assms
    by (auto simp: process_item_word grows_def split: sum.splits option.splits
        dest!: words_add_Inr)
next
  case (idiom it)
  then show ?thesis
    using assms
    by (auto simp: process_item_idiom grows_def split: sum.splits option.splits
        dest!: idioms_add_Inr)
qed (use assms in \<open>auto simp: process_item_null process_item_bad_base process_item_bad_core
      process_item_bad_pos process_item_other_type\<close>)

lemma addLoop_grows: "addLoop t xs = Inr t' \<Longrightarrow> grows t t'"
proof (induction xs arbitrary: t)
  case Nil
  then show ?case by simp
next
  case (Cons x xs)
  then show ?case
    by (auto split: sum.splits dest!: process_item_grows intro: grows_trans)
qed

lemma addVocabularyItems_None:
  "\<exists>t. addLoop \<lparr> tx_db = d, addedCount = 0, tx_budget = None, console = [] \<rparr> xs = Inr t
       \<and> tx_budget t = None
       \<and> addVocabularyItems None d xs
           = \<lparr> returned = Inr (addedCount t), db_after = tx_db t, logged = console t \<rparr>"
proof -
  obtain t where t: "addLoop \<lparr> tx_db = d, addedCount = 0, tx_budget = None, console = [] \<rparr> xs = Inr t"
    "tx_budget t = None"
    using addLoop_total[of "\<lparr> tx_db = d, addedCount = 0, tx_budget = None, console = [] \<rparr>" xs]
    by auto
  then show ?thesis by (auto simp: addVocabularyItems_def)
qed

lemma claim_valid_iff: "claim_valid it \<longleftrightarrow> word_candidate it \<or> idiom_candidate it"
  by (auto simp: claim_valid_def claim_invalid_def missing_truthy word_candidate_def
      idiom_candidate_def base_ok_def core_ok_def pos_ok_def truthy_def)

lemma key_stored_word:
  "r_type it = Some ''word'' \<Longrightarrow>
   key_stored d it \<longleftrightarrow> (\<exists>w \<in> set (words d). english w = str (r_english it) \<and> pos w = Some (str (r_pos it)))"
  by (auto simp: key_stored_def words_index_get_def find_None_iff)

lemma key_stored_idiom:
  "r_type it \<noteq> Some ''word'' \<Longrightarrow>
   key_stored d it \<longleftrightarrow> (\<exists>i \<in> set (idioms d). english i = str (r_english it))"
  by (auto simp: key_stored_def idioms_index_get_def find_None_iff)

lemma key_stored_mono:
  assumes "grows t t'" "key_stored (tx_db t) it"
  shows "key_stored (tx_db t') it"
proof (cases "r_type it = Some ''word''")
  case True
  then show ?thesis using assms by (auto simp: key_stored_word grows_def)
next
  case False
  then show ?thesis using assms by (auto simp: key_stored_idiom grows_def)
qed

lemma process_item_new:
  assumes c: "word_candidate it \<or> idiom_candidate it"
    and n: "\<not> key_stored (tx_db t) it" and b: "tx_budget t = None"
  shows "\<exists>t1. process_item t (Some it) = Inr t1 \<and> addedCount t1 = addedCount t + 1
           \<and> tx_budget t1 = None \<and> console t1 = console t
           \<and> (\<forall>it'. word_candidate it' \<or> idiom_candidate it' \<longrightarrow>
                 (key_stored (tx_db t1) it' \<longleftrightarrow>
                    key_stored (tx_db t) it' \<or> item_key it' = item_key it))"
proof -
  consider (w) "word_candidate it" | (i) "idiom_candidate it" "r_type it \<noteq> Some ''word''"
    using c by (auto simp: idiom_candidate_def)
  then show ?thesis
  proof cases
    case w
    then have ty: "r_type it = Some ''word''" and p: "r_pos it = Some (str (r_pos it))"
      by (auto simp: word_candidate_def pos_ok_def truthy_str)
    have none: "words_index_get (tx_db t) (str (r_english it), str (r_pos it)) = None"
      using n ty by (simp add: key_stored_def)
    then have add: "words_add (tx_db t) (data_of it)
        = Inr ((tx_db t)\<lparr> words := words (tx_db t) @ [(data_of it)\<lparr> id' := Some (wordsNextKey (tx_db t)) \<rparr>],
                 wordsNextKey := wordsNextKey (tx_db t) + 1 \<rparr>)"
      using p by (auto simp: words_add_def split: option.splits)
    let ?t1 = "t\<lparr> tx_db := (tx_db t)\<lparr> words := words (tx_db t) @ [(data_of it)\<lparr> id' := Some (wordsNextKey (tx_db t)) \<rparr>],
                 wordsNextKey := wordsNextKey (tx_db t) + 1 \<rparr>, addedCount := addedCount t + 1,
                 tx_budget := None \<rparr>"
    have step: "process_item t (Some it) = Inr ?t1"
      using w b none add by (simp add: process_item_word)
    have keys: "key_stored (tx_db ?t1) it' \<longleftrightarrow> key_stored (tx_db t) it' \<or> item_key it' = item_key it"
      if c': "word_candidate it' \<or> idiom_candidate it'" for it'
    proof (cases "r_type it' = Some ''word''")
      case True
      then have "word_candidate it'" using c' by (auto simp: idiom_candidate_def)
      then have p': "r_pos it' = Some (str (r_pos it'))"
        by (auto simp: word_candidate_def pos_ok_def truthy_str)
      show ?thesis
        using True ty p p' by (auto simp: key_stored_word item_key_def)
    next
      case False
      then have "str (r_type it') \<noteq> ''word''"
        using c' by (auto simp: idiom_candidate_def word_candidate_def str_def)
      then show ?thesis
        using False ty by (auto simp: key_stored_idiom item_key_def str_def)
    qed
    show ?thesis using step keys by auto
  next
    case i
    then have ty: "r_type it = Some ''idiom''" by (auto simp: idiom_candidate_def)
    have none: "idioms_index_get (tx_db t) (str (r_english it)) = None"
      using n i(2) by (simp add: key_stored_def)
    then have add: "idioms_add (tx_db t) ((data_of it)\<lparr> pos := None \<rparr>)
        = Inr ((tx_db t)\<lparr> idioms := idioms (tx_db t) @ [(data_of it)\<lparr> pos := None, id' := Some (idiomsNextKey (tx_db t)) \<rparr>],
                 idiomsNextKey := idiomsNextKey (tx_db t) + 1 \<rparr>)"
      by (auto simp: idioms_add_def)
    let ?t1 = "t\<lparr> tx_db := (tx_db t)\<lparr> idioms := idioms (tx_db t) @ [(data_of it)\<lparr> pos := None, id' := Some (idiomsNextKey (tx_db t)) \<rparr>],
                 idiomsNextKey := idiomsNextKey (tx_db t) + 1 \<rparr>, addedCount := addedCount t + 1,
                 tx_budget := None \<rparr>"
    have step: "process_item t (Some it) = Inr ?t1"
      using i(1) b none add by (simp add: process_item_idiom)
    have keys: "key_stored (tx_db ?t1) it' \<longleftrightarrow> key_stored (tx_db t) it' \<or> item_key it' = item_key it"
      if c': "word_candidate it' \<or> idiom_candidate it'" for it'
    proof (cases "r_type it' = Some ''word''")
      case True
      then show ?thesis
        using ty by (auto simp: key_stored_word item_key_def str_def)
    next
      case False
      then have "r_type it' = Some ''idiom''"
        using c' by (auto simp: idiom_candidate_def word_candidate_def)
      then show ?thesis
        using False ty by (auto simp: key_stored_idiom item_key_def str_def)
    qed
    show ?thesis using step keys by auto
  qed
qed

lemma addLoop_all_new:
  assumes "tx_budget t = None" "\<forall>it \<in> set its. word_candidate it \<or> idiom_candidate it"
    "distinct (map item_key its)" "\<forall>it \<in> set its. \<not> key_stored (tx_db t) it"
  shows "\<exists>t'. addLoop t (map Some its) = Inr t' \<and> addedCount t' = addedCount t + length its
           \<and> tx_budget t' = None \<and> console t' = console t
           \<and> (\<forall>it \<in> set its. key_stored (tx_db t') it)"
  using assms
proof (induction its arbitrary: t)
  case Nil
  then show ?case by simp
next
  case (Cons it its)
  obtain t1 where t1: "process_item t (Some it) = Inr t1" "addedCount t1 = addedCount t + 1"
    "tx_budget t1 = None" "console t1 = console t"
    "\<forall>it'. word_candidate it' \<or> idiom_candidate it' \<longrightarrow>
           (key_stored (tx_db t1) it' \<longleftrightarrow> key_stored (tx_db t) it' \<or> item_key it' = item_key it)"
    using process_item_new[of it t] Cons.prems by auto
  have fresh: "\<forall>it' \<in> set its. \<not> key_stored (tx_db t1) it'"
  proof
    fix it' assume m: "it' \<in> set its"
    then have "word_candidate it' \<or> idiom_candidate it'" "\<not> key_stored (tx_db t) it'"
      using Cons.prems(2,4) by auto
    moreover have "item_key it' \<noteq> item_key it"
      using m Cons.prems(3) by (auto simp: image_iff)
    ultimately show "\<not> key_stored (tx_db t1) it'"
      using t1(5) by blast
  qed
  obtain t' where t': "addLoop t1 (map Some its) = Inr t'"
    "addedCount t' = addedCount t1 + length its" "tx_budget t' = None" "console t' = console t1"
    "\<forall>it \<in> set its. key_stored (tx_db t') it"
    using Cons.IH[OF t1(3) _ _ fresh] Cons.prems(2,3) by auto
  have "key_stored (tx_db t1) it" using t1(5) Cons.prems(2) by auto
  then have "key_stored (tx_db t') it"
    using key_stored_mono[OF addLoop_grows[OF t'(1)]] by simp
  then show ?case using t1 t' by simp
qed

lemma addLoop_all_stored:
  assumes "tx_budget t = None" "\<forall>it \<in> set its. word_candidate it \<or> idiom_candidate it"
    "\<forall>it \<in> set its. key_stored (tx_db t) it"
  shows "\<exists>t'. addLoop t (map Some its) = Inr t' \<and> addedCount t' = addedCount t
           \<and> tx_db t' = tx_db t \<and> tx_budget t' = None"
  using assms
proof (induction its arbitrary: t)
  case Nil
  then show ?case by simp
next
  case (Cons it its)
  obtain t1 where t1: "process_item t (Some it) = Inr t1" "tx_budget t1 = None"
    using process_item_total[OF Cons.prems(1)] by blast
  have same: "tx_db t1 = tx_db t" "addedCount t1 = addedCount t"
    using process_item_stored[of it t] Cons.prems(2,3) t1(1) by auto
  show ?case
    using Cons.IH[of t1] t1 same Cons.prems(2,3) by auto
qed

text \<open>
  Claim C2. For a list of valid records (a word or an idiom with every required field
  present and non-empty, a word with one of the four parts of speech) whose uniqueness
  keys are pairwise distinct and none of which is stored, \<^verbatim>\<open>addVocabularyItems\<close> returns the
  length of the list; a second call with the same list returns 0 and leaves both stores
  (and their key generators) as the first call left them.
\<close>

theorem addVocabularyItems_twice:
  assumes "\<forall>it \<in> set its. claim_valid it" "distinct (map item_key its)"
    "\<forall>it \<in> set its. \<not> key_stored d it"
  shows "returned (addVocabularyItems None d (map Some its)) = Inr (length its)
         \<and> returned (addVocabularyItems None (db_after (addVocabularyItems None d (map Some its)))
               (map Some its)) = Inr 0
         \<and> db_after (addVocabularyItems None (db_after (addVocabularyItems None d (map Some its)))
               (map Some its)) = db_after (addVocabularyItems None d (map Some its))"
proof -
  let ?t0 = "\<lparr> tx_db = d, addedCount = 0, tx_budget = None, console = [] \<rparr>"
  have c: "\<forall>it \<in> set its. word_candidate it \<or> idiom_candidate it"
    using assms(1) by (simp add: claim_valid_iff)
  obtain t' where t': "addLoop ?t0 (map Some its) = Inr t'" "addedCount t' = length its"
    "tx_budget t' = None" "\<forall>it \<in> set its. key_stored (tx_db t') it"
    using addLoop_all_new[of ?t0 its] c assms(2,3) by auto
  have first: "addVocabularyItems None d (map Some its)
      = \<lparr> returned = Inr (length its), db_after = tx_db t', logged = console t' \<rparr>"
    using t' by (simp add: addVocabularyItems_def)
  let ?t1 = "\<lparr> tx_db = tx_db t', addedCount = 0, tx_budget = None, console = [] \<rparr>"
  obtain t'' where t'': "addLoop ?t1 (map Some its) = Inr t''" "addedCount t'' = 0"
    "tx_db t'' = tx_db t'" "tx_budget t'' = None"
    using addLoop_all_stored[of ?t1 its] c t'(4) by auto
  have second: "addVocabularyItems None (tx_db t') (map Some its)
      = \<lparr> returned = Inr 0, db_after = tx_db t', logged = console t'' \<rparr>"
    using t'' by (simp add: addVocabularyItems_def)
  show ?thesis by (simp add: first second)
qed

lemma core_eq_results:
  assumes "addLoop t1 xs = Inr u1" "addLoop t2 xs = Inr u2" "core_eq t1 t2"
  shows "core_eq u1 u2"
  using addLoop_core_eq[OF assms(3), of xs] assms(1,2) by (simp add: outcome_eq_def)

text \<open>
  Claim C7. Without a storage fault, \<^verbatim>\<open>addVocabularyItems\<close> returns, for every list, the
  number of records it inserted: the stores afterwards are the stores before followed by
  the new records, and the result is the number of those. An invalid record, and a valid
  one whose key is stored when its turn comes, is skipped: the call returns the same
  count and leaves the same database as the call without that record, so the records
  after it are processed as usual.
\<close>

theorem addVocabularyItems_count:
  "(\<exists>n ws is. returned (addVocabularyItems None d xs) = Inr n
       \<and> words (db_after (addVocabularyItems None d xs)) = words d @ ws
       \<and> idioms (db_after (addVocabularyItems None d xs)) = idioms d @ is
       \<and> n = length ws + length is)
   \<and> ((claim_invalid x
        \<or> (\<exists>it. x = Some it \<and> claim_valid it
                 \<and> key_stored (db_after (addVocabularyItems None d pre)) it))
       \<longrightarrow> returned (addVocabularyItems None d (pre @ x # post))
             = returned (addVocabularyItems None d (pre @ post))
           \<and> db_after (addVocabularyItems None d (pre @ x # post))
             = db_after (addVocabularyItems None d (pre @ post)))"
proof -
  let ?t0 = "\<lparr> tx_db = d, addedCount = 0, tx_budget = None, console = [] \<rparr>"
  obtain t where t: "addLoop ?t0 xs = Inr t"
    "addVocabularyItems None d xs
       = \<lparr> returned = Inr (addedCount t), db_after = tx_db t, logged = console t \<rparr>"
    using addVocabularyItems_None[of d xs] by blast
  have "grows ?t0 t" using addLoop_grows[OF t(1)] .
  then have part1: "\<exists>n ws is. returned (addVocabularyItems None d xs) = Inr n
       \<and> words (db_after (addVocabularyItems None d xs)) = words d @ ws
       \<and> idioms (db_after (addVocabularyItems None d xs)) = idioms d @ is
       \<and> n = length ws + length is"
    by (auto simp: grows_def t(2))
  have part2: "returned (addVocabularyItems None d (pre @ x # post))
             = returned (addVocabularyItems None d (pre @ post))
           \<and> db_after (addVocabularyItems None d (pre @ x # post))
             = db_after (addVocabularyItems None d (pre @ post))"
    if skip: "claim_invalid x
        \<or> (\<exists>it. x = Some it \<and> claim_valid it
                 \<and> key_stored (db_after (addVocabularyItems None d pre)) it)"
  proof -
    obtain t1 where t1: "addLoop ?t0 pre = Inr t1" "tx_budget t1 = None"
      "addVocabularyItems None d pre
         = \<lparr> returned = Inr (addedCount t1), db_after = tx_db t1, logged = console t1 \<rparr>"
      using addVocabularyItems_None[of d pre] by blast
    obtain t2 where t2: "process_item t1 x = Inr t2" "tx_budget t2 = None"
      using process_item_total[OF t1(2)] by blast
    have ce: "core_eq t2 t1"
    proof (cases "claim_invalid x")
      case True
      then show ?thesis using claim_invalid_warns[of x t1] t2(1) by auto
    next
      case False
      then obtain it where it: "x = Some it" "claim_valid it" "key_stored (tx_db t1) it"
        using skip t1(3) by auto
      then show ?thesis
        using process_item_stored[of it t1] t2 t1(2) by (auto simp: claim_valid_iff core_eq_def)
    qed
    obtain u2 where u2: "addLoop t2 post = Inr u2" "tx_budget u2 = None"
      using addLoop_total[OF t2(2)] by blast
    obtain u1 where u1: "addLoop t1 post = Inr u1" "tx_budget u1 = None"
      using addLoop_total[OF t1(2)] by blast
    have "core_eq u2 u1" using core_eq_results[OF u2(1) u1(1) ce] .
    moreover have "addLoop ?t0 (pre @ x # post) = Inr u2"
      using t1(1) t2(1) u2(1) by (simp add: addLoop_append)
    moreover have "addLoop ?t0 (pre @ post) = Inr u1"
      using t1(1) u1(1) by (simp add: addLoop_append)
    ultimately show ?thesis
      using u1(2) u2(2) by (simp add: addVocabularyItems_def core_eq_def)
  qed
  show ?thesis using part1 part2 by blast
qed

text \<open>
  Claim C10. A record with every required field present and non-empty whose \<^verbatim>\<open>type\<close> is
  neither \<^verbatim>\<open>'word'\<close> nor \<^verbatim>\<open>'idiom'\<close> falls through the loop body: the state of the
  transaction, console included, is unchanged, and the whole call (result, database and
  console output, with any storage environment) is the call without that record.
\<close>

theorem addVocabularyItems_unknown_type:
  assumes "\<not> claim_invalid (Some it)" "r_type it \<noteq> Some ''word''" "r_type it \<noteq> Some ''idiom''"
  shows "process_item t (Some it) = Inr t
         \<and> addVocabularyItems b d (pre @ Some it # post) = addVocabularyItems b d (pre @ post)"
proof -
  have ok: "base_ok it" "core_ok it"
    using assms(1)
    by (auto simp: claim_invalid_def missing_def base_ok_def core_ok_def truthy_def
        split: option.splits)
  have step: "process_item t (Some it) = Inr t" for t
    using ok assms(2,3) by (rule process_item_other_type)
  have "addLoop t0 (pre @ Some it # post) = addLoop t0 (pre @ post)" for t0
    by (simp add: addLoop_append step split: sum.splits)
  then show ?thesis using step by (simp add: addVocabularyItems_def)
qed

lemma process_item_error:
  "process_item t x = Inl (e, lg) \<Longrightarrow> e = StorageFault \<and> tx_budget t \<noteq> None"
proof (cases x rule: item_cases)
  case (word it)
  assume a: "process_item t x = Inl (e, lg)"
  have p: "r_pos it = Some (str (r_pos it))"
    using word(2) by (auto simp: word_candidate_def pos_ok_def truthy_str)
  have "words_index_get (tx_db t) (str (r_english it), str (r_pos it)) = None
        \<Longrightarrow> \<exists>d'. words_add (tx_db t) (data_of it) = Inr d'"
    using p by (auto simp: words_add_def split: option.splits)
  then show ?thesis
    using a word
    by (cases "tx_budget t" rule: request.cases)
      (auto simp: process_item_word split: option.splits sum.splits nat.splits
        elim!: request.elims)
next
  case (idiom it)
  assume a: "process_item t x = Inl (e, lg)"
  have "idioms_index_get (tx_db t) (str (r_english it)) = None
        \<Longrightarrow> \<exists>d'. idioms_add (tx_db t) ((data_of it)\<lparr> pos := None \<rparr>) = Inr d'"
    by (auto simp: idioms_add_def)
  then show ?thesis
    using a idiom
    by (cases "tx_budget t" rule: request.cases)
      (auto simp: process_item_idiom split: option.splits sum.splits nat.splits
        elim!: request.elims)
qed (auto simp: process_item_null process_item_bad_base process_item_bad_core
      process_item_bad_pos process_item_other_type)

lemma addLoop_error:
  "addLoop t xs = Inl (e, lg) \<Longrightarrow> e = StorageFault \<and> tx_budget t \<noteq> None"
proof (induction xs arbitrary: t)
  case Nil
  then show ?case by simp
next
  case (Cons x xs)
  show ?case
  proof (cases "process_item t x")
    case (Inl a)
    then show ?thesis using Cons.prems process_item_error[of t x e lg] by simp
  next
    case (Inr t')
    then have "e = StorageFault \<and> tx_budget t' \<noteq> None"
      using Cons.prems Cons.IH[of t'] by simp
    moreover have "tx_budget t \<noteq> None"
    proof
      assume "tx_budget t = None"
      then have "tx_budget t' = None" using process_item_total[of t x] Inr by auto
      then show False using \<open>e = StorageFault \<and> tx_budget t' \<noteq> None\<close> by simp
    qed
    ultimately show ?thesis by simp
  qed
qed

lemma process_item_no_budget:
  assumes "tx_budget t = Some 0"
  shows "(\<exists>lg. process_item t x = Inl (StorageFault, lg))
         \<or> (\<exists>t'. process_item t x = Inr t' \<and> tx_budget t' = Some 0 \<and> tx_db t' = tx_db t)"
proof (cases x rule: item_cases)
  case (word it)
  then show ?thesis using assms by (simp add: process_item_word)
next
  case (idiom it)
  then show ?thesis using assms by (simp add: process_item_idiom)
qed (use assms in \<open>auto simp: process_item_null process_item_bad_base process_item_bad_core
      process_item_bad_pos process_item_other_type warn_def\<close>)

lemma addLoop_no_budget:
  "tx_budget t = Some 0 \<Longrightarrow>
   (\<exists>lg. addLoop t xs = Inl (StorageFault, lg))
   \<or> (\<exists>t'. addLoop t xs = Inr t' \<and> tx_budget t' = Some 0)"
proof (induction xs arbitrary: t)
  case Nil
  then show ?case by simp
next
  case (Cons x xs)
  show ?case
  proof (cases "process_item t x")
    case (Inl a)
    then show ?thesis using process_item_no_budget[OF Cons.prems, of x] by auto
  next
    case (Inr t')
    then have "tx_budget t' = Some 0"
      using process_item_no_budget[OF Cons.prems, of x] by auto
    then show ?thesis using Cons.IH[of t'] Inr by simp
  qed
qed

lemma process_item_budget:
  "(\<exists>lg. process_item t x = Inl (StorageFault, lg))
   \<or> (\<exists>t'. process_item t x = Inr t'
           \<and> process_item (t\<lparr> tx_budget := None \<rparr>) x = Inr (t'\<lparr> tx_budget := None \<rparr>))"
proof (cases x rule: item_cases)
  case (word it)
  have p: "r_pos it = Some (str (r_pos it))"
    using word(2) by (auto simp: word_candidate_def pos_ok_def truthy_str)
  show ?thesis
  proof (cases "words_index_get (tx_db t) (str (r_english it), str (r_pos it))")
    case None
    then have "\<exists>d'. words_add (tx_db t) (data_of it) = Inr d'"
      using p by (auto simp: words_add_def split: option.splits)
    then obtain d' where d': "words_add (tx_db t) (data_of it) = Inr d'" by blast
    show ?thesis
    proof (cases "tx_budget t" rule: request.cases)
      case (3 k)
      then show ?thesis
        using word None d' by (cases k) (simp_all add: process_item_word)
    qed (use word None d' in \<open>simp_all add: process_item_word\<close>)
  next
    case (Some a)
    then show ?thesis
      using word by (cases "tx_budget t" rule: request.cases) (simp_all add: process_item_word)
  qed
next
  case (idiom it)
  show ?thesis
  proof (cases "idioms_index_get (tx_db t) (str (r_english it))")
    case None
    then have "\<exists>d'. idioms_add (tx_db t) ((data_of it)\<lparr> pos := None \<rparr>) = Inr d'"
      by (auto simp: idioms_add_def)
    then obtain d' where d': "idioms_add (tx_db t) ((data_of it)\<lparr> pos := None \<rparr>) = Inr d'"
      by blast
    show ?thesis
    proof (cases "tx_budget t" rule: request.cases)
      case (3 k)
      then show ?thesis
        using idiom None d' by (cases k) (simp_all add: process_item_idiom)
    qed (use idiom None d' in \<open>simp_all add: process_item_idiom\<close>)
  next
    case (Some a)
    then show ?thesis
      using idiom by (cases "tx_budget t" rule: request.cases) (simp_all add: process_item_idiom)
  qed
qed (simp_all add: process_item_null process_item_bad_base process_item_bad_core
      process_item_bad_pos process_item_other_type warn_def)

lemma addLoop_budget:
  "(\<exists>lg. addLoop t xs = Inl (StorageFault, lg))
   \<or> (\<exists>t'. addLoop t xs = Inr t'
           \<and> addLoop (t\<lparr> tx_budget := None \<rparr>) xs = Inr (t'\<lparr> tx_budget := None \<rparr>))"
proof (induction xs arbitrary: t)
  case Nil
  then show ?case by simp
next
  case (Cons x xs)
  show ?case
  proof (cases "process_item t x")
    case (Inl a)
    then show ?thesis using process_item_budget[of t x] by auto
  next
    case (Inr t1)
    then have n: "process_item (t\<lparr> tx_budget := None \<rparr>) x = Inr (t1\<lparr> tx_budget := None \<rparr>)"
      using process_item_budget[of t x] by auto
    show ?thesis using Cons.IH[of t1] Inr n by auto
  qed
qed

lemma addVocabularyItems_all_or_nothing:
  "(returned (addVocabularyItems b d xs) = Inl StorageFault
      \<and> db_after (addVocabularyItems b d xs) = d)
   \<or> (returned (addVocabularyItems b d xs) = returned (addVocabularyItems None d xs)
      \<and> db_after (addVocabularyItems b d xs) = db_after (addVocabularyItems None d xs))"
proof -
  let ?t0 = "\<lparr> tx_db = d, addedCount = 0, tx_budget = b, console = [] \<rparr>"
  have t0: "?t0\<lparr> tx_budget := None \<rparr> = \<lparr> tx_db = d, addedCount = 0, tx_budget = None, console = [] \<rparr>"
    by simp
  show ?thesis
  proof (cases "addLoop ?t0 xs")
    case (Inl a)
    then have "\<exists>lg. a = (StorageFault, lg)" using addLoop_budget[of ?t0 xs] by auto
    then show ?thesis using Inl by (auto simp: addVocabularyItems_def)
  next
    case (Inr t')
    then have n: "addLoop \<lparr> tx_db = d, addedCount = 0, tx_budget = None, console = [] \<rparr> xs
        = Inr (t'\<lparr> tx_budget := None \<rparr>)"
      using addLoop_budget[of ?t0 xs] t0 by auto
    show ?thesis
    proof (cases "request (tx_budget t')")
      case l: (Inl e)
      then have "e = StorageFault" by (auto elim: request.elims)
      then show ?thesis using Inr l by (simp add: addVocabularyItems_def)
    next
      case r: (Inr b')
      show ?thesis using Inr r n by (simp add: addVocabularyItems_def)
    qed
  qed
qed

lemma item_requests_le: "item_requests d x \<le> 2"
  by (auto simp: item_requests_def split: option.splits)

lemma item_requests_word:
  "word_candidate it \<Longrightarrow>
   item_requests d (Some it)
   = (if words_index_get d (str (r_english it), str (r_pos it)) = None then 2 else 1)"
  by (auto simp: item_requests_def key_stored_def word_candidate_def)

lemma item_requests_idiom:
  "idiom_candidate it \<Longrightarrow>
   item_requests d (Some it)
   = (if idioms_index_get d (str (r_english it)) = None then 2 else 1)"
  by (auto simp: item_requests_def key_stored_def idiom_candidate_def)

lemma item_requests_skip:
  "x = None \<or> (\<exists>it. x = Some it \<and> \<not> word_candidate it \<and> \<not> idiom_candidate it)
   \<Longrightarrow> item_requests d x = 0"
  by (auto simp: item_requests_def)

lemma process_item_fault:
  assumes "tx_budget t = Some k" "k < item_requests (tx_db t) x"
  shows "process_item t x = Inl (StorageFault, console t)"
proof (cases x rule: item_cases)
  case (word it)
  have p: "r_pos it = Some (str (r_pos it))"
    using word(2) by (auto simp: word_candidate_def pos_ok_def truthy_str)
  show ?thesis
  proof (cases "words_index_get (tx_db t) (str (r_english it), str (r_pos it))")
    case None
    then have "k = 0 \<or> k = 1" using assms(2) word by (auto simp: item_requests_word)
    then show ?thesis using word None assms(1) by (auto simp: process_item_word)
  next
    case (Some a)
    then have "k = 0" using assms(2) word by (auto simp: item_requests_word)
    then show ?thesis using word Some assms(1) by (auto simp: process_item_word)
  qed
next
  case (idiom it)
  show ?thesis
  proof (cases "idioms_index_get (tx_db t) (str (r_english it))")
    case None
    then have "k = 0 \<or> k = 1" using assms(2) idiom by (auto simp: item_requests_idiom)
    then show ?thesis using idiom None assms(1) by (auto simp: process_item_idiom)
  next
    case (Some a)
    then have "k = 0" using assms(2) idiom by (auto simp: item_requests_idiom)
    then show ?thesis using idiom Some assms(1) by (auto simp: process_item_idiom)
  qed
qed (use assms in \<open>auto simp: item_requests_def word_candidate_def idiom_candidate_def\<close>)

lemma process_item_served:
  assumes "tx_budget t = Some k" "item_requests (tx_db t) x \<le> k"
  shows "\<exists>t'. process_item t x = Inr t'
           \<and> tx_budget t' = Some (k - item_requests (tx_db t) x)
           \<and> process_item (t\<lparr> tx_budget := None \<rparr>) x = Inr (t'\<lparr> tx_budget := None \<rparr>)"
proof (cases x rule: item_cases)
  case (word it)
  have p: "r_pos it = Some (str (r_pos it))"
    using word(2) by (auto simp: word_candidate_def pos_ok_def truthy_str)
  show ?thesis
  proof (cases "words_index_get (tx_db t) (str (r_english it), str (r_pos it))")
    case None
    then have "\<exists>d'. words_add (tx_db t) (data_of it) = Inr d'"
      using p by (auto simp: words_add_def split: option.splits)
    then obtain d' where d': "words_add (tx_db t) (data_of it) = Inr d'" by blast
    have "2 \<le> k" using assms(2) word None by (simp add: item_requests_word)
    then obtain j where k: "k = Suc (Suc j)" by (auto simp: le_iff_add)
    show ?thesis using word None d' assms(1) k by (simp add: process_item_word item_requests_word)
  next
    case (Some a)
    obtain j where k: "k = Suc j"
      using assms(2) word Some by (cases k) (auto simp: item_requests_word)
    show ?thesis using word Some assms(1) k by (simp add: process_item_word item_requests_word)
  qed
next
  case (idiom it)
  show ?thesis
  proof (cases "idioms_index_get (tx_db t) (str (r_english it))")
    case None
    then have "\<exists>d'. idioms_add (tx_db t) ((data_of it)\<lparr> pos := None \<rparr>) = Inr d'"
      by (auto simp: idioms_add_def)
    then obtain d' where d': "idioms_add (tx_db t) ((data_of it)\<lparr> pos := None \<rparr>) = Inr d'"
      by blast
    have "2 \<le> k" using assms(2) idiom None by (simp add: item_requests_idiom)
    then obtain j where k: "k = Suc (Suc j)" by (auto simp: le_iff_add)
    show ?thesis
      using idiom None d' assms(1) k by (simp add: process_item_idiom item_requests_idiom)
  next
    case (Some a)
    obtain j where k: "k = Suc j"
      using assms(2) idiom Some by (cases k) (auto simp: item_requests_idiom)
    show ?thesis using idiom Some assms(1) k by (simp add: process_item_idiom item_requests_idiom)
  qed
qed (use assms in \<open>auto simp: item_requests_def word_candidate_def idiom_candidate_def
      process_item_null process_item_bad_base process_item_bad_core
      process_item_bad_pos process_item_other_type warn_def\<close>)


lemma loop_requests_budget: "loop_requests (t\<lparr> tx_budget := b \<rparr>) xs = loop_requests t xs"
  by (cases xs) simp_all

lemma addLoop_fault:
  "tx_budget t = Some k \<Longrightarrow> k < loop_requests t xs
   \<Longrightarrow> \<exists>lg. addLoop t xs = Inl (StorageFault, lg)"
proof (induction xs arbitrary: t k)
  case Nil
  then show ?case by simp
next
  case (Cons x xs)
  let ?r = "item_requests (tx_db t) x"
  show ?case
  proof (cases "k < ?r")
    case True
    then show ?thesis using process_item_fault[OF Cons.prems(1) True] by simp
  next
    case False
    then have le: "?r \<le> k" by simp
    obtain t1 where t1: "process_item t x = Inr t1" "tx_budget t1 = Some (k - ?r)"
      "process_item (t\<lparr> tx_budget := None \<rparr>) x = Inr (t1\<lparr> tx_budget := None \<rparr>)"
      using process_item_served[OF Cons.prems(1) le] by blast
    have "loop_requests t (x # xs) = ?r + loop_requests t1 xs"
      using t1(3) by (simp add: loop_requests_budget)
    then have "k - ?r < loop_requests t1 xs" using Cons.prems(2) le by simp
    then show ?thesis using Cons.IH[OF t1(2)] t1(1) by simp
  qed
qed

lemma addLoop_served:
  "tx_budget t = Some k \<Longrightarrow> loop_requests t xs \<le> k
   \<Longrightarrow> \<exists>t'. addLoop t xs = Inr t' \<and> tx_budget t' = Some (k - loop_requests t xs)
            \<and> addLoop (t\<lparr> tx_budget := None \<rparr>) xs = Inr (t'\<lparr> tx_budget := None \<rparr>)"
proof (induction xs arbitrary: t k)
  case Nil
  then show ?case by simp
next
  case (Cons x xs)
  let ?r = "item_requests (tx_db t) x"
  have le: "?r \<le> k" using Cons.prems(2) by simp
  obtain t1 where t1: "process_item t x = Inr t1" "tx_budget t1 = Some (k - ?r)"
    "process_item (t\<lparr> tx_budget := None \<rparr>) x = Inr (t1\<lparr> tx_budget := None \<rparr>)"
    using process_item_served[OF Cons.prems(1) le] by blast
  have lr: "loop_requests t (x # xs) = ?r + loop_requests t1 xs"
    using t1(3) by (simp add: loop_requests_budget)
  then have "loop_requests t1 xs \<le> k - ?r" using Cons.prems(2) by simp
  then obtain t' where t': "addLoop t1 xs = Inr t'"
    "tx_budget t' = Some (k - ?r - loop_requests t1 xs)"
    "addLoop (t1\<lparr> tx_budget := None \<rparr>) xs = Inr (t'\<lparr> tx_budget := None \<rparr>)"
    using Cons.IH[OF t1(2)] by blast
  show ?case using t1(1,3) t' lr by simp
qed

text \<open>
  Claim C4. One call works in one transaction over both stores, and a rejected request,
  whichever it is, makes the call throw and leave the database as it was. With
  \<open>requests_of d xs\<close> the number of requests that the call awaits (one \<^verbatim>\<open>index.get\<close> for
  every candidate, one \<^verbatim>\<open>store.add\<close> for every candidate whose key is not stored, and
  \<^verbatim>\<open>tx.done\<close>), and an engine that rejects request number \<open>k\<close>:
  if \<open>k\<close> is one of the requests of the call (\<open>k < requests_of d xs\<close>: a probe, an add of
  any record of the list, or the commit), the call throws the storage fault, the
  database is exactly the one before the call, whatever was added before the fault is
  gone, and the \<^verbatim>\<open>catch\<close> block has logged the fault last;
  if the call never reaches request \<open>k\<close> (\<open>requests_of d xs \<le> k\<close>), it returns the count
  and leaves the database of an engine that never fails.
  An engine that never fails makes the call return a count, and every call awaits at
  least one request. With any engine, a call that throws has thrown the storage fault
  (no validation failure and no duplicate throws, and \<^verbatim>\<open>store.add\<close> is never refused by
  a unique index), has left the database as it was and has logged the fault last.
\<close>

theorem addVocabularyItems_abort:
  "(k < requests_of d xs \<longrightarrow>
      returned (addVocabularyItems (Some k) d xs) = Inl StorageFault
      \<and> db_after (addVocabularyItems (Some k) d xs) = d
      \<and> logged (addVocabularyItems (Some k) d xs) \<noteq> []
      \<and> last (logged (addVocabularyItems (Some k) d xs)) = ErrorAborted StorageFault)
   \<and> (requests_of d xs \<le> k \<longrightarrow>
      returned (addVocabularyItems (Some k) d xs) = returned (addVocabularyItems None d xs)
      \<and> db_after (addVocabularyItems (Some k) d xs) = db_after (addVocabularyItems None d xs))
   \<and> (\<exists>n. returned (addVocabularyItems None d xs) = Inr n)
   \<and> 0 < requests_of d xs
   \<and> (returned (addVocabularyItems b d xs) = Inl e \<longrightarrow>
        db_after (addVocabularyItems b d xs) = d \<and> e = StorageFault \<and> b \<noteq> None
        \<and> logged (addVocabularyItems b d xs) \<noteq> []
        \<and> last (logged (addVocabularyItems b d xs)) = ErrorAborted e)"
proof -
  let ?t0 = "\<lambda>b. \<lparr> tx_db = d, addedCount = 0, tx_budget = b, console = [] \<rparr>"
  let ?L = "loop_requests (?t0 None) xs"
  have t0: "(?t0 (Some k))\<lparr> tx_budget := None \<rparr> = ?t0 None" by simp
  have L: "loop_requests (?t0 (Some k)) xs = ?L"
    using loop_requests_budget[where t = "?t0 None" and b = "Some k" and xs = xs] by simp
  have N: "requests_of d xs = ?L + 1" by (simp add: requests_of_def)
  have fault: "returned (addVocabularyItems (Some k) d xs) = Inl StorageFault
      \<and> db_after (addVocabularyItems (Some k) d xs) = d
      \<and> logged (addVocabularyItems (Some k) d xs) \<noteq> []
      \<and> last (logged (addVocabularyItems (Some k) d xs)) = ErrorAborted StorageFault"
    if lt: "k < requests_of d xs"
  proof (cases "k < ?L")
    case True
    then obtain lg where "addLoop (?t0 (Some k)) xs = Inl (StorageFault, lg)"
      using addLoop_fault[of "?t0 (Some k)" k xs] L by auto
    then show ?thesis by (simp add: addVocabularyItems_def)
  next
    case False
    then have "k = ?L" using lt N by simp
    then obtain t' where "addLoop (?t0 (Some k)) xs = Inr t'" "tx_budget t' = Some 0"
      using addLoop_served[of "?t0 (Some k)" k xs] L by auto
    then show ?thesis by (simp add: addVocabularyItems_def)
  qed
  have served: "returned (addVocabularyItems (Some k) d xs)
        = returned (addVocabularyItems None d xs)
      \<and> db_after (addVocabularyItems (Some k) d xs) = db_after (addVocabularyItems None d xs)"
    if le: "requests_of d xs \<le> k"
  proof -
    have "?L \<le> k" using le N by simp
    then obtain t' where t': "addLoop (?t0 (Some k)) xs = Inr t'"
      "tx_budget t' = Some (k - ?L)" "addLoop (?t0 None) xs = Inr (t'\<lparr> tx_budget := None \<rparr>)"
      using addLoop_served[of "?t0 (Some k)" k xs] L t0 by auto
    obtain j where "k - ?L = Suc j" using le N by (cases "k - ?L") auto
    then show ?thesis using t' by (simp add: addVocabularyItems_def)
  qed
  have n: "\<exists>n. returned (addVocabularyItems None d xs) = Inr n"
    using addVocabularyItems_None[of d xs] by auto
  have thrown: "db_after (addVocabularyItems b d xs) = d \<and> e = StorageFault \<and> b \<noteq> None
      \<and> logged (addVocabularyItems b d xs) \<noteq> []
      \<and> last (logged (addVocabularyItems b d xs)) = ErrorAborted e"
    if r: "returned (addVocabularyItems b d xs) = Inl e"
  proof (cases "addLoop (?t0 b) xs")
    case (Inl a)
    obtain e' lg where a: "a = (e', lg)" by (cases a)
    have "e' = StorageFault \<and> b \<noteq> None"
      using addLoop_error[of "?t0 b" xs e' lg] Inl a by simp
    then show ?thesis using r Inl a by (simp add: addVocabularyItems_def)
  next
    case (Inr t)
    then have f: "request (tx_budget t) = Inl e"
      using r by (auto simp: addVocabularyItems_def split: sum.splits)
    then have e: "e = StorageFault" by (auto elim: request.elims)
    have "b \<noteq> None"
    proof
      assume "b = None"
      then have "tx_budget t = None"
        using addLoop_total[of "?t0 b" xs] Inr by auto
      then show False using f by simp
    qed
    then show ?thesis using Inr f e by (simp add: addVocabularyItems_def)
  qed
  show ?thesis using fault served n N thrown by simp
qed

theorem addVocabularyItems_abort_witness:
  "requests_of empty_db (map Some ex_its) = 7
   \<and> (4::nat) < requests_of empty_db (map Some ex_its)
   \<and> returned (addVocabularyItems (Some 4) empty_db (map Some ex_its)) = Inl StorageFault
   \<and> db_after (addVocabularyItems (Some 4) empty_db (map Some ex_its)) = empty_db
   \<and> last (logged (addVocabularyItems (Some 4) empty_db (map Some ex_its)))
       = ErrorAborted StorageFault
   \<and> returned (addVocabularyItems (Some 6) empty_db (map Some ex_its)) = Inl StorageFault
   \<and> db_after (addVocabularyItems (Some 6) empty_db (map Some ex_its)) = empty_db
   \<and> requests_of empty_db (map Some ex_its) \<le> 7
   \<and> returned (addVocabularyItems (Some 7) empty_db (map Some ex_its))
       = returned (addVocabularyItems None empty_db (map Some ex_its))
   \<and> db_after (addVocabularyItems (Some 7) empty_db (map Some ex_its))
       = db_after (addVocabularyItems None empty_db (map Some ex_its))
   \<and> returned (addVocabularyItems None empty_db (map Some ex_its)) = Inr 3"
proof -
  have c: "requests_of empty_db (map Some ex_its) = 7" by code_simp
  have n: "returned (addVocabularyItems None empty_db (map Some ex_its)) = Inr 3"
    by code_simp
  note a = addVocabularyItems_abort[of 4 empty_db "map Some ex_its" "Some 4" StorageFault]
  note b = addVocabularyItems_abort[of 7 empty_db "map Some ex_its" None StorageFault]
  note e = addVocabularyItems_abort[of 6 empty_db "map Some ex_its" None StorageFault]
  show ?thesis using a b e c n by simp
qed

theorem addVocabularyItems_twice_witness:
  "claim_valid ex_run_verb \<and> claim_valid ex_run_noun \<and> claim_valid ex_idiom
   \<and> distinct (map item_key ex_its)
   \<and> \<not> key_stored empty_db ex_run_verb \<and> \<not> key_stored empty_db ex_run_noun
   \<and> \<not> key_stored empty_db ex_idiom
   \<and> returned (addVocabularyItems None empty_db (map Some ex_its)) = Inr 3
   \<and> returned (addVocabularyItems None
         (db_after (addVocabularyItems None empty_db (map Some ex_its))) (map Some ex_its)) = Inr 0
   \<and> db_after (addVocabularyItems None
         (db_after (addVocabularyItems None empty_db (map Some ex_its))) (map Some ex_its))
       = db_after (addVocabularyItems None empty_db (map Some ex_its))"
proof -
  have v1: "claim_valid ex_run_verb" "claim_valid ex_run_noun" "claim_valid ex_idiom"
    by code_simp+
  have s1: "\<not> key_stored empty_db ex_run_verb" "\<not> key_stored empty_db ex_run_noun"
    "\<not> key_stored empty_db ex_idiom"
    by code_simp+
  have v: "\<forall>it \<in> set ex_its. claim_valid it" using v1 by (simp add: ex_its_def)
  have k: "distinct (map item_key ex_its)" by code_simp
  have s: "\<forall>it \<in> set ex_its. \<not> key_stored empty_db it" using s1 by (simp add: ex_its_def)
  have l: "length ex_its = 3" by (simp add: ex_its_def)
  show ?thesis using addVocabularyItems_twice[OF v k s] v1 k s1 l by simp
qed

theorem addVocabularyItems_count_witness:
  "claim_invalid (Some ex_no_japanese) \<and> claim_invalid (Some ex_bad_pos) \<and> claim_invalid None
   \<and> claim_valid ex_run_verb
   \<and> key_stored (db_after (addVocabularyItems None empty_db [Some ex_run_verb])) ex_run_verb
   \<and> returned (addVocabularyItems None empty_db
        ([Some ex_run_verb] @ Some ex_no_japanese # [Some ex_idiom]))
      = returned (addVocabularyItems None empty_db ([Some ex_run_verb] @ [Some ex_idiom]))
   \<and> db_after (addVocabularyItems None empty_db
        ([Some ex_run_verb] @ Some ex_run_verb # [Some ex_idiom]))
      = db_after (addVocabularyItems None empty_db ([Some ex_run_verb] @ [Some ex_idiom]))
   \<and> returned (addVocabularyItems None empty_db
        [Some ex_run_verb, Some ex_no_japanese, None, Some ex_bad_pos, Some ex_run_verb,
         Some ex_idiom]) = Inr 2"
proof -
  have i: "claim_invalid (Some ex_no_japanese)" "claim_invalid (Some ex_bad_pos)"
    "claim_invalid None"
    by code_simp+
  have v: "claim_valid ex_run_verb" by code_simp
  have k: "key_stored (db_after (addVocabularyItems None empty_db [Some ex_run_verb])) ex_run_verb"
    by code_simp
  note a = addVocabularyItems_count[of empty_db "[]" "Some ex_no_japanese" "[Some ex_run_verb]"
      "[Some ex_idiom]"]
  note b = addVocabularyItems_count[of empty_db "[]" "Some ex_run_verb" "[Some ex_run_verb]"
      "[Some ex_idiom]"]
  have c: "returned (addVocabularyItems None empty_db
        [Some ex_run_verb, Some ex_no_japanese, None, Some ex_bad_pos, Some ex_run_verb,
         Some ex_idiom]) = Inr 2"
    by code_simp
  show ?thesis using a b i v k c by blast
qed

theorem addVocabularyItems_unknown_type_witness:
  "\<not> claim_invalid (Some ex_phrase) \<and> r_type ex_phrase \<noteq> Some ''word''
   \<and> r_type ex_phrase \<noteq> Some ''idiom''
   \<and> addVocabularyItems None empty_db ([Some ex_run_verb] @ Some ex_phrase # [Some ex_idiom])
       = addVocabularyItems None empty_db ([Some ex_run_verb] @ [Some ex_idiom])
   \<and> logged (addVocabularyItems None empty_db [Some ex_phrase]) = []
   \<and> returned (addVocabularyItems None empty_db [Some ex_phrase]) = Inr 0"
proof -
  have h: "\<not> claim_invalid (Some ex_phrase)" "r_type ex_phrase \<noteq> Some ''word''"
    "r_type ex_phrase \<noteq> Some ''idiom''"
    by code_simp+
  have l: "logged (addVocabularyItems None empty_db [Some ex_phrase]) = []" by code_simp
  have r: "returned (addVocabularyItems None empty_db [Some ex_phrase]) = Inr 0" by code_simp
  show ?thesis
    using addVocabularyItems_unknown_type[OF h, of undefined None empty_db "[Some ex_run_verb]"
        "[Some ex_idiom]"] h l r
    by blast
qed

section \<open>Sorting, slicing and the paginated query\<close>

lemma mset_insert_by [simp]: "mset (insert_by cmp x xs) = add_mset x (mset xs)"
  by (induction xs) auto

lemma mset_js_sort [simp]: "mset (js_sort cmp xs) = mset xs"
  unfolding js_sort_def by (induction xs) auto

lemma set_js_sort [simp]: "set (js_sort cmp xs) = set xs"
  using mset_js_sort[of cmp xs] by (metis set_mset_mset)

lemma length_js_sort [simp]: "length (js_sort cmp xs) = length xs"
  using mset_js_sort[of cmp xs] by (metis size_mset)

lemma set_insert_by [simp]: "set (insert_by cmp x xs) = insert x (set xs)"
  using mset_insert_by[of cmp x xs] by (metis set_mset_add_mset_insert set_mset_mset)

lemma sorted_insert_by:
  assumes "total_preorder cmp" "sorted_wrt (\<lambda>a b. cmp a b \<le> 0) xs"
  shows "sorted_wrt (\<lambda>a b. cmp a b \<le> 0) (insert_by cmp x xs)"
  using assms(2)
proof (induction xs)
  case Nil
  then show ?case by simp
next
  case (Cons y ys)
  have tot: "\<And>a b. cmp a b \<le> 0 \<or> cmp b a \<le> 0"
    and tr: "\<And>a b c. cmp a b \<le> 0 \<Longrightarrow> cmp b c \<le> 0 \<Longrightarrow> cmp a c \<le> 0"
    using assms(1) unfolding total_preorder_def by blast+
  show ?case
  proof (cases "cmp x y \<le> 0")
    case True
    then have "\<forall>z \<in> set ys. cmp x z \<le> 0" using Cons.prems tr by auto
    then show ?thesis using True Cons.prems by simp
  next
    case False
    then have "cmp y x \<le> 0" using tot by blast
    then show ?thesis using False Cons by auto
  qed
qed

lemma sorted_js_sort:
  "total_preorder cmp \<Longrightarrow> sorted_wrt (\<lambda>a b. cmp a b \<le> 0) (js_sort cmp xs)"
  unfolding js_sort_def by (induction xs) (auto intro: sorted_insert_by)

lemma js_slice_nonneg:
  assumes "0 \<le> start" "start \<le> fin"
  shows "js_slice xs start fin = take (nat (fin - start)) (drop (nat start) xs)"
proof (cases "start \<le> int (length xs)")
  case True
  then have "js_slice xs start fin
      = take (nat (min fin (int (length xs)) - start)) (drop (nat start) xs)"
    using assms by (simp add: js_slice_def Let_def min_def)
  also have "\<dots> = take (nat (fin - start)) (drop (nat start) xs)"
    using assms True by (cases "fin \<le> int (length xs)") (simp_all add: min_def)
  finally show ?thesis .
next
  case False
  then show ?thesis using assms by (simp add: js_slice_def Let_def min_def)
qed

lemma concat_pages:
  "concat (map (\<lambda>q. take s (drop (q * s) xs)) [0..<k]) = take (k * s) xs"
proof (induction k)
  case 0
  then show ?case by simp
next
  case (Suc k)
  have "Suc k * s = k * s + s" by simp
  then have "take (Suc k * s) xs = take (k * s) xs @ take s (drop (k * s) xs)"
    by (simp only: take_add)
  then show ?case using Suc by simp
qed

lemma page_count_covers:
  assumes "0 < s"
  shows "n \<le> page_count n s * nat s"
proof -
  define c where "c = \<lceil>(of_nat n :: rat) / of_int s\<rceil>"
  have 1: "(of_nat n :: rat) / of_int s \<le> of_int c"
    unfolding c_def by (rule le_of_int_ceiling)
  have "(of_nat n :: rat) = (of_nat n / of_int s) * of_int s"
    using assms by simp
  also have "\<dots> \<le> of_int c * of_int s"
    using 1 assms by (intro mult_right_mono) simp_all
  finally have "(of_int (int n) :: rat) \<le> of_int (c * s)" by simp
  then have 2: "int n \<le> c * s" by (simp only: of_int_le_iff)
  have "0 \<le> (of_nat n :: rat) / of_int s" using assms by simp
  then have 3: "0 \<le> c"
    unfolding c_def using ceiling_mono[of 0 "(of_nat n :: rat) / of_int s"] by simp
  have "n = nat (int n)" by simp
  also have "\<dots> \<le> nat (c * s)" using 2 by (rule nat_mono)
  also have "\<dots> = nat c * nat s" using 3 by (simp add: nat_mult_distrib)
  finally show ?thesis by (simp add: page_count_def c_def)
qed

lemma items_page:
  assumes "0 < s" "1 \<le> page"
  shows "items (getPaginatedVocabulary lc lw d page s f)
         = take (nat s) (drop (nat ((page - 1) * s)) (sortedMatchingItems lc lw d f))"
proof -
  have "0 \<le> (page - 1) * s" using assms by simp
  then show ?thesis
    using assms js_slice_nonneg[of "(page - 1) * s" "(page - 1) * s + s"]
    by (simp add: getPaginatedVocabulary_def Let_def)
qed

lemma all_pages:
  assumes "0 < s"
  shows "concat (map (\<lambda>p. items (getPaginatedVocabulary lc lw d (int p) s f))
           [1..<Suc (page_count (length (allMatchingItems lw d f)) s)])
         = sortedMatchingItems lc lw d f"
proof -
  let ?S = "sortedMatchingItems lc lw d f"
  let ?P = "page_count (length (allMatchingItems lw d f)) s"
  have len: "length ?S = length (allMatchingItems lw d f)"
    by (simp add: sortedMatchingItems_def)
  have "[1..<Suc ?P] = map Suc [0..<?P]" by (simp add: map_Suc_upt)
  then have "concat (map (\<lambda>p. items (getPaginatedVocabulary lc lw d (int p) s f)) [1..<Suc ?P])
      = concat (map (\<lambda>q. items (getPaginatedVocabulary lc lw d (int (Suc q)) s f)) [0..<?P])"
    by (simp add: comp_def)
  also have "\<dots> = concat (map (\<lambda>q. take (nat s) (drop (q * nat s) ?S)) [0..<?P])"
    using assms by (simp add: items_page nat_mult_distrib)
  also have "\<dots> = take (?P * nat s) ?S" by (rule concat_pages)
  also have "\<dots> = ?S" using page_count_covers[OF assms, of "length (allMatchingItems lw d f)"] len by simp
  finally show ?thesis .
qed

lemma take_length_prefix: "take (length n) ys = n \<longleftrightarrow> prefix n ys"
proof
  assume "take (length n) ys = n"
  then show "prefix n ys" by (metis take_is_prefix)
next
  assume "prefix n ys"
  then show "take (length n) ys = n" by (auto elim: prefixE)
qed

lemma js_includes_sublist: "js_includes h n \<longleftrightarrow> sublist n h"
  by (induction h) (simp_all add: sublist_Cons_right take_length_prefix del: take_Suc_Cons)

lemma matches_satisfies:
  assumes "filters_typed f"
  shows "matches lw f r \<longleftrightarrow> satisfies lw f r"
proof -
  have l: "truthy (f_level f) \<longleftrightarrow> f_level f \<noteq> None"
    using assms by (auto simp: filters_typed_def truthy_def LEVELS_def split: option.splits)
  have c: "truthy (f_category f) \<longleftrightarrow> f_category f \<noteq> None"
    using assms
    by (auto simp: filters_typed_def truthy_def VOCAB_CATEGORIES_def split: option.splits)
  have t: "truthy (f_type f) \<longleftrightarrow> f_type f \<noteq> None"
    using assms by (auto simp: filters_typed_def truthy_def split: option.splits)
  have n: "truthy_num (f_frequencyLevel f) \<longleftrightarrow> f_frequencyLevel f \<noteq> None"
    using assms by (auto simp: filters_typed_def truthy_num_def split: option.splits)
  have s: "(truthy (map_option lw (f_search f))
            \<and> \<not> js_includes (lw (english r)) (str (map_option lw (f_search f)))
            \<and> \<not> js_includes (lw (japanese r)) (str (map_option lw (f_search f))))
        \<longleftrightarrow> \<not> (case f_search f of None \<Rightarrow> True
          | Some s \<Rightarrow> sublist (lw s) (lw (english r)) \<or> sublist (lw s) (lw (japanese r)))"
  proof (cases "f_search f")
    case None
    then show ?thesis by (simp add: truthy_def)
  next
    case (Some q)
    show ?thesis
    proof (cases "lw q = []")
      case True
      then show ?thesis using Some by (simp add: truthy_def)
    next
      case False
      then show ?thesis using Some by (simp add: truthy_def str_def js_includes_sublist)
    qed
  qed
  show ?thesis
    unfolding matches_def satisfies_def Let_def l c t n s
    by (auto split: option.splits)
qed

lemma distinct_stored:
  assumes "db_inv d"
  shows "distinct (words d @ idioms d)"
proof -
  have "distinct (words d)" "distinct (idioms d)"
    using assms by (auto simp: db_inv_def keys_wf_def dest: distinct_map[THEN iffD1])
  moreover have "set (words d) \<inter> set (idioms d) = {}"
    using assms by (auto simp: db_inv_def words_wf_def idioms_wf_def)
  ultimately show ?thesis by simp
qed

lemma distinct_allMatchingItems: "db_inv d \<Longrightarrow> distinct (allMatchingItems lw d f)"
  using distinct_stored[of d] by (auto simp: allMatchingItems_def)

lemma mset_sortedMatchingItems:
  "mset (sortedMatchingItems lc lw d f) = mset (allMatchingItems lw d f)"
  by (simp add: sortedMatchingItems_def)

lemma set_sortedMatchingItems:
  "set (sortedMatchingItems lc lw d f) = set (allMatchingItems lw d f)"
  using mset_sortedMatchingItems[of lc lw d f] by (metis set_mset_mset)

lemma total_preorder_id: "total_preorder (\<lambda>a b. id_or_0 a - id_or_0 b)"
  by (auto simp: total_preorder_def)

lemma total_preorder_english:
  "total_preorder lc \<Longrightarrow> total_preorder (\<lambda>a b. lc (english a) (english b))"
  unfolding total_preorder_def by blast

text \<open>
  Claim C5. For a positive page size, page number \<open>page \<ge> 1\<close> of
  \<^verbatim>\<open>getPaginatedVocabulary\<close> is the slice from \<open>(page - 1) * itemsPerPage\<close> of that length
  of the sorted matching items, and \<^verbatim>\<open>total\<close> is the number of matching items before
  pagination. The sorted list is a permutation of the matching items, in ascending id
  order by default and in the order of \<^verbatim>\<open>localeCompare\<close> (when that is a total preorder)
  for \<^verbatim>\<open>'alphabetical'\<close>. The pages 1 to \<^verbatim>\<open>Math.ceil(total / itemsPerPage)\<close>, one after the
  other, are exactly that list: nothing is omitted and, the stored records of a
  reachable database being distinct, nothing is repeated.
\<close>

theorem getPaginatedVocabulary_pages:
  assumes "0 < itemsPerPage"
  shows "(1 \<le> page \<longrightarrow>
            items (getPaginatedVocabulary lc lw d page itemsPerPage f)
            = take (nat itemsPerPage) (drop (nat ((page - 1) * itemsPerPage))
                (sortedMatchingItems lc lw d f)))
   \<and> total (getPaginatedVocabulary lc lw d page itemsPerPage f) = length (allMatchingItems lw d f)
   \<and> mset (sortedMatchingItems lc lw d f) = mset (allMatchingItems lw d f)
   \<and> (f_sortOrder f \<noteq> Some ''alphabetical'' \<longrightarrow>
        sorted_wrt (\<lambda>a b. id_or_0 a \<le> id_or_0 b) (sortedMatchingItems lc lw d f))
   \<and> (f_sortOrder f = Some ''alphabetical'' \<and> total_preorder lc \<longrightarrow>
        sorted_wrt (\<lambda>a b. lc (english a) (english b) \<le> 0) (sortedMatchingItems lc lw d f))
   \<and> concat (map (\<lambda>p. items (getPaginatedVocabulary lc lw d (int p) itemsPerPage f))
         [1..<Suc (page_count (total (getPaginatedVocabulary lc lw d page itemsPerPage f))
                    itemsPerPage)])
      = sortedMatchingItems lc lw d f
   \<and> (reachable d \<longrightarrow> distinct (sortedMatchingItems lc lw d f))"
proof -
  have tot: "total (getPaginatedVocabulary lc lw d page itemsPerPage f)
      = length (allMatchingItems lw d f)"
    by (simp add: getPaginatedVocabulary_def Let_def sortedMatchingItems_def)
  have byid: "sorted_wrt (\<lambda>a b. id_or_0 a \<le> id_or_0 b) (sortedMatchingItems lc lw d f)"
    if "f_sortOrder f \<noteq> Some ''alphabetical''"
    using sorted_js_sort[OF total_preorder_id, of "allMatchingItems lw d f"] that
    by (simp add: sortedMatchingItems_def)
  have alpha: "sorted_wrt (\<lambda>a b. lc (english a) (english b) \<le> 0) (sortedMatchingItems lc lw d f)"
    if "f_sortOrder f = Some ''alphabetical'' \<and> total_preorder lc"
    using sorted_js_sort[OF total_preorder_english, of lc "allMatchingItems lw d f"] that
    by (simp add: sortedMatchingItems_def)
  have dist: "distinct (sortedMatchingItems lc lw d f)" if "reachable d"
    using distinct_allMatchingItems[OF reachable_db_inv[OF that], of lw f]
      mset_eq_imp_distinct_iff[OF mset_sortedMatchingItems[of lc lw d f]]
    by simp
  show ?thesis
    using items_page[OF assms, of page lc lw d f] tot mset_sortedMatchingItems[of lc lw d f]
      byid alpha all_pages[OF assms, of lc lw d f] dist
    by simp
qed

lemma in_some_page:
  assumes "0 < s"
  shows "(\<exists>page\<ge>1. r \<in> set (items (getPaginatedVocabulary lc lw d page s f)))
         \<longleftrightarrow> r \<in> set (allMatchingItems lw d f)"
proof
  assume "\<exists>page\<ge>1. r \<in> set (items (getPaginatedVocabulary lc lw d page s f))"
  then obtain page where "1 \<le> page" "r \<in> set (items (getPaginatedVocabulary lc lw d page s f))"
    by blast
  then have "r \<in> set (sortedMatchingItems lc lw d f)"
    using items_page[OF assms, of page lc lw d f] by (auto dest: in_set_takeD in_set_dropD)
  then show "r \<in> set (allMatchingItems lw d f)"
    by (simp add: set_sortedMatchingItems)
next
  assume "r \<in> set (allMatchingItems lw d f)"
  then have "r \<in> set (sortedMatchingItems lc lw d f)"
    by (simp add: set_sortedMatchingItems)
  then have "r \<in> set (concat (map (\<lambda>p. items (getPaginatedVocabulary lc lw d (int p) s f))
           [1..<Suc (page_count (length (allMatchingItems lw d f)) s)]))"
    using all_pages[OF assms, of lc lw d f] by simp
  then obtain p where "1 \<le> p" "r \<in> set (items (getPaginatedVocabulary lc lw d (int p) s f))"
    by auto
  then show "\<exists>page\<ge>1. r \<in> set (items (getPaginatedVocabulary lc lw d page s f))"
    by (intro exI[of _ "int p"]) simp
qed

text \<open>
  Claim C6. In a reachable database, with filters of the interface's types and a
  positive page size, a stored record is on some page of \<^verbatim>\<open>getPaginatedVocabulary\<close> if
  and only if it satisfies every given filter: equal level, equal category, equal type,
  equal frequency level, and the search text occurring, case-insensitively, in its
  \<^verbatim>\<open>english\<close> or its \<^verbatim>\<open>japanese\<close>: the lower-case search text is a contiguous part
  of the lower-case field. This holds for every order \<open>lc\<close> of \<^verbatim>\<open>localeCompare\<close> and every
  case mapping \<open>lw\<close> of \<^verbatim>\<open>toLowerCase\<close>, so for the Unicode mapping of the host too.
\<close>

theorem getPaginatedVocabulary_filter:
  assumes "reachable d" "filters_typed f" "0 < itemsPerPage"
    "r \<in> set (words d) \<union> set (idioms d)"
  shows "(\<exists>page\<ge>1. r \<in> set (items (getPaginatedVocabulary lc lw d page itemsPerPage f)))
         \<longleftrightarrow> satisfies lw f r"
proof -
  have inv: "db_inv d" using assms(1) by (rule reachable_db_inv)
  have ty: "r \<in> set (words d) \<Longrightarrow> type r = ''word''" "r \<in> set (idioms d) \<Longrightarrow> type r = ''idiom''"
    using inv by (auto simp: db_inv_def words_wf_def idioms_wf_def)
  have "r \<in> set (allMatchingItems lw d f) \<longleftrightarrow> satisfies lw f r"
  proof (cases "r \<in> set (words d)")
    case True
    then have w: "type r = ''word''" and ni: "r \<notin> set (idioms d)" using ty by auto
    show ?thesis
    proof (cases "f_type f = Some ''idiom''")
      case True
      then have "\<not> satisfies lw f r" using w by (simp add: satisfies_def)
      then show ?thesis using True ni by (simp add: allMatchingItems_def)
    next
      case False
      then show ?thesis
        using \<open>r \<in> set (words d)\<close> ni matches_satisfies[OF assms(2), of lw r]
        by (simp add: allMatchingItems_def)
    qed
  next
    case False
    then have i: "r \<in> set (idioms d)" using assms(4) by simp
    then have w: "type r = ''idiom''" using ty by simp
    show ?thesis
    proof (cases "f_type f = Some ''word''")
      case True
      then have "\<not> satisfies lw f r" using w by (simp add: satisfies_def)
      then show ?thesis using True False by (simp add: allMatchingItems_def)
    next
      case f: False
      then show ?thesis
        using i False matches_satisfies[OF assms(2), of lw r]
        by (simp add: allMatchingItems_def)
    qed
  qed
  then show ?thesis using in_some_page[OF assms(3), of r lc lw d f] by simp
qed

lemma reachable_ex_db: "reachable ex_db"
  unfolding ex_db_def by (rule reachable.add[OF reachable.init])

theorem getPaginatedVocabulary_pages_witness:
  "(0::int) < 2 \<and> (1::int) \<le> 2
   \<and> map english (items (getPaginatedVocabulary compare_bytes ascii_toLowerCase ex_db 1 2 ex_no_filters))
       = [''run'', ''break a leg'']
   \<and> items (getPaginatedVocabulary compare_bytes ascii_toLowerCase ex_db 2 2 ex_no_filters)
       = take (nat 2) (drop (nat ((2 - 1) * 2)) (sortedMatchingItems compare_bytes ascii_toLowerCase ex_db ex_no_filters))
   \<and> total (getPaginatedVocabulary compare_bytes ascii_toLowerCase ex_db 2 2 ex_no_filters) = 3
   \<and> page_count 3 2 = 2
   \<and> concat (map (\<lambda>p. items (getPaginatedVocabulary compare_bytes ascii_toLowerCase ex_db (int p) 2 ex_no_filters))
         [1..<Suc (page_count (total (getPaginatedVocabulary compare_bytes ascii_toLowerCase ex_db 2 2 ex_no_filters)) 2)])
      = sortedMatchingItems compare_bytes ascii_toLowerCase ex_db ex_no_filters
   \<and> reachable ex_db \<and> distinct (sortedMatchingItems compare_bytes ascii_toLowerCase ex_db ex_no_filters)
   \<and> f_sortOrder ex_no_filters \<noteq> Some ''alphabetical''
   \<and> sorted_wrt (\<lambda>a b. id_or_0 a \<le> id_or_0 b) (sortedMatchingItems compare_bytes ascii_toLowerCase ex_db ex_no_filters)"
proof -
  have p: "(0::int) < 2" and q: "(1::int) \<le> 2" by simp_all
  note t = getPaginatedVocabulary_pages[OF p, of 2 compare_bytes ascii_toLowerCase ex_db ex_no_filters]
  have a: "map english (items (getPaginatedVocabulary compare_bytes ascii_toLowerCase ex_db 1 2 ex_no_filters))
       = [''run'', ''break a leg'']"
    by code_simp
  have b: "length (allMatchingItems ascii_toLowerCase ex_db ex_no_filters) = 3" by code_simp
  have c: "page_count 3 2 = 2" by code_simp
  have s: "f_sortOrder ex_no_filters \<noteq> Some ''alphabetical''" by code_simp
  have n: "total (getPaginatedVocabulary compare_bytes ascii_toLowerCase ex_db 2 2 ex_no_filters) = 3"
    using t[THEN conjunct2, THEN conjunct1] b by simp
  show ?thesis using t p q a n c s reachable_ex_db by blast
qed

theorem getPaginatedVocabulary_filter_witness:
  "reachable ex_db \<and> filters_typed ex_filters \<and> (0::int) < 2
   \<and> words ex_db ! 0 \<in> set (words ex_db) \<union> set (idioms ex_db)
   \<and> satisfies ascii_toLowerCase ex_filters (words ex_db ! 0)
   \<and> (\<exists>page\<ge>1. words ex_db ! 0
          \<in> set (items (getPaginatedVocabulary compare_bytes ascii_toLowerCase ex_db page 2 ex_filters)))
   \<and> idioms ex_db ! 0 \<in> set (words ex_db) \<union> set (idioms ex_db)
   \<and> \<not> satisfies ascii_toLowerCase ex_filters (idioms ex_db ! 0)
   \<and> \<not> (\<exists>page\<ge>1. idioms ex_db ! 0
          \<in> set (items (getPaginatedVocabulary compare_bytes ascii_toLowerCase ex_db page 2 ex_filters)))"
proof -
  have t: "filters_typed ex_filters" by code_simp
  have p: "(0::int) < 2" by simp
  have m: "words ex_db ! 0 \<in> set (words ex_db) \<union> set (idioms ex_db)" by code_simp
  have s: "satisfies ascii_toLowerCase ex_filters (words ex_db ! 0)" by code_simp
  have m2: "idioms ex_db ! 0 \<in> set (words ex_db) \<union> set (idioms ex_db)" by code_simp
  have s2: "\<not> satisfies ascii_toLowerCase ex_filters (idioms ex_db ! 0)" by code_simp
  note a = getPaginatedVocabulary_filter[OF reachable_ex_db t p m, of compare_bytes ascii_toLowerCase]
  note b = getPaginatedVocabulary_filter[OF reachable_ex_db t p m2, of compare_bytes ascii_toLowerCase]
  show ?thesis using a b reachable_ex_db t p m s m2 s2 by blast
qed

section \<open>updateFrequencyLevels: frame and effect\<close>

lemma store_get_map:
  assumes "\<And>x. id' (g x) = id' x"
  shows "store_get (map g xs) k = map_option g (store_get xs k)"
  by (induction xs) (simp_all add: store_get_def assms)

lemma store_get_id: "store_get xs k = Some x \<Longrightarrow> id' x = Some k"
  by (auto simp: store_get_def find_Some_iff)

lemma store_of_apply_update_same:
  assumes "same_target v u"
  shows "store_of (apply_update d v) u
         = map (set_freq_at (u_id u) (u_frequencyLevel v)) (store_of d u)"
  using assms by (auto simp: store_of_def apply_update_def same_target_def)

lemma store_get_apply_update_other:
  assumes "\<not> same_target v u"
  shows "store_get (store_of (apply_update d v) u) (u_id u) = store_get (store_of d u) (u_id u)"
proof (cases "(u_type v = ''word'') = (u_type u = ''word'')")
  case True
  then have ne: "u_id v \<noteq> u_id u" using assms by (simp add: same_target_def)
  have st: "store_of (apply_update d v) u
      = map (set_freq_at (u_id v) (u_frequencyLevel v)) (store_of d u)"
    using True by (auto simp: store_of_def apply_update_def)
  show ?thesis
  proof (cases "store_get (store_of d u) (u_id u)")
    case None
    then show ?thesis unfolding st by (simp add: store_get_map)
  next
    case (Some x)
    then have "id' x = Some (u_id u)" by (rule store_get_id)
    then have "set_freq_at (u_id v) (u_frequencyLevel v) x = x"
      using ne by (simp add: set_freq_at_def)
    then show ?thesis unfolding st using Some by (simp add: store_get_map)
  qed
next
  case False
  then show ?thesis by (auto simp: store_of_def apply_update_def)
qed

lemma store_get_apply_update_forget:
  assumes "store_get (store_of d u) (u_id u) = Some x"
  shows "\<exists>y. store_get (store_of (apply_update d v) u) (u_id u) = Some y
             \<and> forget_freq y = forget_freq x"
proof (cases "same_target v u")
  case True
  show ?thesis
    unfolding store_of_apply_update_same[OF True] using assms by (simp add: store_get_map)
next
  case False
  show ?thesis
    unfolding store_get_apply_update_other[OF False] using assms by simp
qed

lemma store_get_foldl_forget:
  assumes "store_get (store_of d u) (u_id u) = Some x"
  shows "\<exists>y. store_get (store_of (foldl apply_update d vs) u) (u_id u) = Some y
             \<and> forget_freq y = forget_freq x"
  using assms
proof (induction vs arbitrary: d x)
  case Nil
  then show ?case by simp
next
  case (Cons v vs)
  obtain y where y: "store_get (store_of (apply_update d v) u) (u_id u) = Some y"
    "forget_freq y = forget_freq x"
    using store_get_apply_update_forget[OF Cons.prems] by blast
  show ?case using Cons.IH[OF y(1)] y(2) by simp
qed

lemma store_get_foldl_other:
  assumes "\<forall>v \<in> set vs. \<not> same_target v u"
  shows "store_get (store_of (foldl apply_update d vs) u) (u_id u)
         = store_get (store_of d u) (u_id u)"
  using assms
  by (induction vs arbitrary: d) (simp_all add: store_get_apply_update_other)

lemma same_but_freq_foldl:
  "same_but_freq d d0 \<Longrightarrow> same_but_freq (foldl apply_update d us) d0"
  by (induction us arbitrary: d) (simp_all add: same_but_freq_apply_update)

lemma updateFrequencyLevels_absent:
  assumes "store_get (store_of d u) (u_id u) = None"
  shows "updateFrequencyLevels d (pre @ u # post) = updateFrequencyLevels d (pre @ post)"
proof -
  have "snd (fetch_for d u) = None"
    using assms by (auto simp: fetch_for_def store_of_def split: if_splits)
  then have "put_for d' (fetch_for d u) = d'" for d'
    by (simp add: put_for_def)
  then show ?thesis by (simp add: updateFrequencyLevels_def)
qed

text \<open>
  Claim C8, amended. In a reachable database, after \<^verbatim>\<open>updateFrequencyLevels\<close> every record
  of both stores has every field but \<^verbatim>\<open>frequencyLevel\<close> as before. For an update whose id
  is in the store that its type selects, and which no later update of the list
  addresses again, the record stored under that id afterwards is the record before with
  \<^verbatim>\<open>frequencyLevel\<close> set to the given value. An update whose id is not in that store
  changes nothing: the call is the call without it (and the function has no error
  result).
\<close>

theorem updateFrequencyLevels_sets_frequency:
  assumes "reachable d"
  shows "same_but_freq (updateFrequencyLevels d (pre @ u # post)) d
   \<and> (store_get (store_of d u) (u_id u) = Some x \<and> (\<forall>v \<in> set post. \<not> same_target v u) \<longrightarrow>
        store_get (store_of (updateFrequencyLevels d (pre @ u # post)) u) (u_id u)
        = Some (x\<lparr> frequencyLevel := Some (u_frequencyLevel u) \<rparr>))
   \<and> (store_get (store_of d u) (u_id u) = None \<longrightarrow>
        updateFrequencyLevels d (pre @ u # post) = updateFrequencyLevels d (pre @ post))"
proof -
  have inv: "db_inv d" using assms by (rule reachable_db_inv)
  then have dist: "distinct (map id' (words d))" "distinct (map id' (idioms d))"
    by (simp_all add: db_inv_def keys_wf_def)
  have eq: "updateFrequencyLevels d us = foldl apply_update d us" for us
    using dist by (rule updateFrequencyLevels_eq)
  have frame: "same_but_freq (updateFrequencyLevels d (pre @ u # post)) d"
    unfolding eq by (rule same_but_freq_foldl) (simp add: same_but_freq_def)
  have hit: "store_get (store_of (updateFrequencyLevels d (pre @ u # post)) u) (u_id u)
        = Some (x\<lparr> frequencyLevel := Some (u_frequencyLevel u) \<rparr>)"
    if h: "store_get (store_of d u) (u_id u) = Some x \<and> (\<forall>v \<in> set post. \<not> same_target v u)"
  proof -
    obtain y where y: "store_get (store_of (foldl apply_update d pre) u) (u_id u) = Some y"
      "forget_freq y = forget_freq x"
      using store_get_foldl_forget[of d u x pre] h by blast
    have self: "same_target u u" by (simp add: same_target_def)
    have "id' y = Some (u_id u)" using y(1) by (rule store_get_id)
    then have "store_get (store_of (apply_update (foldl apply_update d pre) u) u) (u_id u)
        = Some (y\<lparr> frequencyLevel := Some (u_frequencyLevel u) \<rparr>)"
      unfolding store_of_apply_update_same[OF self] using y(1)
      by (simp add: store_get_map set_freq_at_def)
    also have "\<dots> = Some (x\<lparr> frequencyLevel := Some (u_frequencyLevel u) \<rparr>)"
      using forget_freq_set[OF y(2)] by simp
    finally show ?thesis
      unfolding eq using store_get_foldl_other[of post u] h by simp
  qed
  show ?thesis using frame hit updateFrequencyLevels_absent[of d u pre post] by blast
qed

text \<open>
  Claim C8 as stated fails when two updates of one list address the same record with
  different values: the later one wins, so the record does not have the value of the
  earlier one.
\<close>

theorem updateFrequencyLevels_conflict_counterexample:
  "ex_up1 \<in> set ex_updates \<and> u_type ex_up1 = ''word''
   \<and> store_get (words ex_db) (u_id ex_up1) \<noteq> None
   \<and> map_option frequencyLevel
        (store_get (words (updateFrequencyLevels ex_db ex_updates)) (u_id ex_up1))
      \<noteq> Some (Some (u_frequencyLevel ex_up1))
   \<and> map_option frequencyLevel
        (store_get (words (updateFrequencyLevels ex_db ex_updates)) (u_id ex_up1))
      = Some (Some 3)"
  by code_simp

theorem updateFrequencyLevels_sets_frequency_witness:
  "reachable ex_db
   \<and> store_get (store_of ex_db ex_up2) (u_id ex_up2) = Some (words ex_db ! 0)
   \<and> \<not> same_target ex_up_idiom ex_up2 \<and> \<not> same_target ex_up_absent ex_up2
   \<and> store_get (store_of (updateFrequencyLevels ex_db ([ex_up1] @ ex_up2 # [ex_up_idiom, ex_up_absent]))
         ex_up2) (u_id ex_up2)
      = Some ((words ex_db ! 0)\<lparr> frequencyLevel := Some (u_frequencyLevel ex_up2) \<rparr>)
   \<and> store_get (store_of ex_db ex_up_absent) (u_id ex_up_absent) = None
   \<and> updateFrequencyLevels ex_db ([ex_up1] @ ex_up_absent # [ex_up_idiom])
      = updateFrequencyLevels ex_db ([ex_up1] @ [ex_up_idiom])
   \<and> same_but_freq (updateFrequencyLevels ex_db ([ex_up1] @ ex_up2 # [ex_up_idiom, ex_up_absent]))
        ex_db"
proof -
  have g: "store_get (store_of ex_db ex_up2) (u_id ex_up2) = Some (words ex_db ! 0)"
    by code_simp
  have o1: "\<not> same_target ex_up_idiom ex_up2" "\<not> same_target ex_up_absent ex_up2"
    by code_simp+
  then have o: "\<forall>v \<in> set [ex_up_idiom, ex_up_absent]. \<not> same_target v ex_up2" by simp
  have n: "store_get (store_of ex_db ex_up_absent) (u_id ex_up_absent) = None" by code_simp
  note a = updateFrequencyLevels_sets_frequency[OF reachable_ex_db, of "[ex_up1]" ex_up2
      "[ex_up_idiom, ex_up_absent]" "words ex_db ! 0"]
  note b = updateFrequencyLevels_sets_frequency[OF reachable_ex_db, of "[ex_up1]" ex_up_absent
      "[ex_up_idiom]" "words ex_db ! 0"]
  show ?thesis using a b g o o1 n reachable_ex_db by blast
qed

section \<open>The part-of-speech filter and the random orders\<close>

lemma mset_swap_model:
  "i < length xs \<Longrightarrow> j < length xs \<Longrightarrow> mset (swap i j xs) = mset xs"
  unfolding swap_def by (rule mset_swap)

lemma length_swap [simp]: "length (swap i j xs) = length xs"
  by (simp add: swap_def)

lemma draw_index:
  fixes r :: rat
  assumes "0 \<le> r" "r < 1"
  shows "nat \<lfloor>r * of_nat (Suc i + 1)\<rfloor> \<le> Suc i"
proof -
  have "r * of_nat (Suc i + 1) < 1 * of_nat (Suc i + 1)"
    using assms(2) by (intro mult_strict_right_mono) simp_all
  then have "r * of_nat (Suc i + 1) < of_int (int (Suc i + 1))"
    by simp
  then have "\<lfloor>r * of_nat (Suc i + 1)\<rfloor> < int (Suc i + 1)"
    by (simp only: floor_less_iff)
  then show ?thesis by simp
qed

lemma mset_shuffle_from:
  assumes "\<forall>k. 0 \<le> rnd k \<and> rnd k < 1"
  shows "i < length xs \<Longrightarrow> mset (shuffle_from rnd k i xs) = mset xs"
proof (induction i arbitrary: k xs)
  case 0
  then show ?case by simp
next
  case (Suc i)
  let ?j = "nat \<lfloor>rnd k * of_nat (Suc i + 1)\<rfloor>"
  have j: "?j < length xs"
    using draw_index[of "rnd k" i] assms Suc.prems by (meson le_less_trans)
  have "mset (swap (Suc i) ?j xs) = mset xs"
    using Suc.prems j by (rule mset_swap_model)
  moreover have "mset (shuffle_from rnd (Suc k) i (swap (Suc i) ?j xs))
      = mset (swap (Suc i) ?j xs)"
    using Suc.prems by (intro Suc.IH) simp
  ultimately show ?case by simp
qed

lemma mset_shuffle:
  assumes "\<forall>k. 0 \<le> rnd k \<and> rnd k < 1"
  shows "mset (shuffle rnd xs) = mset xs"
proof (cases xs)
  case Nil
  then show ?thesis by (simp add: shuffle_def)
next
  case (Cons a as)
  then show ?thesis
    unfolding shuffle_def by (intro mset_shuffle_from[OF assms]) simp
qed

lemma set_js_slice: "set (js_slice xs a b) \<subseteq> set xs"
  unfolding js_slice_def Let_def by (meson in_set_dropD in_set_takeD subsetI)

lemma filtered_no_idiom:
  assumes "idioms_pos_null d" "posFilter \<noteq> ''all''" "\<forall>k. 0 \<le> rnd k \<and> rnd k < 1"
  shows "set (filtered_for_level_category lc rnd d lv cat vt posFilter so freq)
         \<subseteq> {x \<in> set (words d). pos x = Some posFilter}"
proof -
  have i: "\<forall>x \<in> set (idioms d). pos x = None"
    using assms(1) by (simp add: idioms_pos_null_def)
  define a1 where "a1 = (if vt = ''word'' \<or> vt = ''all''
             then getAllFromIndex_level_category (words d) lv cat else []) @
            (if vt = ''idiom'' \<or> vt = ''all''
             then getAllFromIndex_level_category (idioms d) lv cat else [])"
  define a2 where "a2 = filter (\<lambda>item. pos item = Some posFilter) a1"
  define a3 where "a3 = (if truthy_num freq then filter (\<lambda>item. frequencyLevel item = freq) a2 else a2)"
  have "set a1 \<subseteq> set (words d) \<union> set (idioms d)"
    by (auto simp: a1_def getAllFromIndex_level_category_def)
  then have "set a2 \<subseteq> {x \<in> set (words d). pos x = Some posFilter}"
    using i by (auto simp: a2_def)
  then have 3: "set a3 \<subseteq> {x \<in> set (words d). pos x = Some posFilter}"
    by (auto simp: a3_def)
  have "set (shuffle rnd a3) = set a3"
    using mset_shuffle[OF assms(3), of a3] by (metis set_mset_mset)
  moreover have "set (js_sort (\<lambda>a b. lc (english a) (english b)) a3) = set a3"
    by simp
  moreover have "filtered_for_level_category lc rnd d lv cat vt posFilter so freq
      = (if so = ''Alphabetical'' then js_sort (\<lambda>a b. lc (english a) (english b)) a3
         else shuffle rnd a3)"
    using assms(2) by (simp add: filtered_for_level_category_def Let_def a1_def a2_def a3_def)
  ultimately show ?thesis using 3 by auto
qed

lemma filtered_idiom_empty:
  assumes "idioms_pos_null d" "posFilter \<noteq> ''all''"
  shows "filtered_for_level_category lc rnd d lv cat ''idiom'' posFilter so freq = []"
proof -
  have i: "\<forall>x \<in> set (idioms d). pos x = None"
    using assms(1) by (simp add: idioms_pos_null_def)
  then have "filter (\<lambda>item. pos item = Some posFilter)
      (getAllFromIndex_level_category (idioms d) lv cat) = []"
    by (auto simp: getAllFromIndex_level_category_def filter_empty_conv)
  then show ?thesis
    using assms(2)
    by (simp add: filtered_for_level_category_def Let_def js_sort_def shuffle_def)
qed

text \<open>
  Where every idiom of the store has \<^verbatim>\<open>pos = null\<close>, a \<^verbatim>\<open>posFilter\<close> other than \<^verbatim>\<open>'all'\<close>
  keeps no idiom in the result of \<^verbatim>\<open>getVocabulary\<close> or of
  \<^verbatim>\<open>getAllVocabularyForLevelAndCategory\<close>, and with \<^verbatim>\<open>vocabType\<close> \<^verbatim>\<open>'idiom'\<close> the result is
  empty; \<^verbatim>\<open>addVocabularyItems\<close> keeps the idioms that way.
\<close>

lemma posFilter_excludes_null_pos_idioms:
  assumes "reachable d" "idioms_pos_null d" "posFilter \<noteq> ''all''"
    "\<forall>k. 0 \<le> rnd k \<and> rnd k < 1"
  shows "(\<forall>x \<in> set (getVocabulary lc rnd d lv cat vt posFilter so n freq).
            x \<notin> set (idioms d) \<and> type x \<noteq> ''idiom'')
   \<and> (\<forall>x \<in> set (getAllVocabularyForLevelAndCategory lc rnd d lv cat vt posFilter so freq).
            x \<notin> set (idioms d) \<and> type x \<noteq> ''idiom'')
   \<and> getVocabulary lc rnd d lv cat ''idiom'' posFilter so n freq = []
   \<and> getAllVocabularyForLevelAndCategory lc rnd d lv cat ''idiom'' posFilter so freq = []"
proof -
  have inv: "db_inv d" using assms(1) by (rule reachable_db_inv)
  have w: "x \<notin> set (idioms d) \<and> type x \<noteq> ''idiom''"
    if "x \<in> set (words d)" "pos x = Some posFilter" for x
    using inv that by (auto simp: db_inv_def words_wf_def idioms_wf_def)
  note sub = filtered_no_idiom[OF assms(2,3,4), of lc lv cat vt so freq]
  have a: "\<forall>x \<in> set (getAllVocabularyForLevelAndCategory lc rnd d lv cat vt posFilter so freq).
            x \<notin> set (idioms d) \<and> type x \<noteq> ''idiom''"
    unfolding getAllVocabularyForLevelAndCategory_def using sub w by blast
  have g: "\<forall>x \<in> set (getVocabulary lc rnd d lv cat vt posFilter so n freq).
            x \<notin> set (idioms d) \<and> type x \<noteq> ''idiom''"
    unfolding getVocabulary_def
    using sub w
      set_js_slice[of "filtered_for_level_category lc rnd d lv cat vt posFilter so freq" 0 n]
    by blast
  have e: "getVocabulary lc rnd d lv cat ''idiom'' posFilter so n freq = []"
    by (simp add: getVocabulary_def filtered_idiom_empty[OF assms(2,3)] js_slice_def)
  have e2: "getAllVocabularyForLevelAndCategory lc rnd d lv cat ''idiom'' posFilter so freq = []"
    by (simp add: getAllVocabularyForLevelAndCategory_def filtered_idiom_empty[OF assms(2,3)])
  show ?thesis using a g e e2 by blast
qed

lemma process_item_pos_null:
  assumes "idioms_pos_null (tx_db t)" "process_item t x = Inr t'"
  shows "idioms_pos_null (tx_db t')"
proof (cases x rule: item_cases)
  case (word it)
  then show ?thesis
    using assms
    by (auto simp: process_item_word idioms_pos_null_def split: sum.splits option.splits
        dest!: words_add_Inr)
next
  case (idiom it)
  then show ?thesis
    using assms
    by (auto simp: process_item_idiom idioms_pos_null_def split: sum.splits option.splits
        dest!: idioms_add_Inr)
qed (use assms in \<open>auto simp: process_item_null process_item_bad_base process_item_bad_core
      process_item_bad_pos process_item_other_type warn_def\<close>)

lemma addLoop_pos_null:
  "idioms_pos_null (tx_db t) \<Longrightarrow> addLoop t xs = Inr t' \<Longrightarrow> idioms_pos_null (tx_db t')"
  by (induction xs arbitrary: t) (auto split: sum.splits dest: process_item_pos_null)

lemma addVocabularyItems_pos_null:
  assumes "idioms_pos_null d"
  shows "idioms_pos_null (db_after (addVocabularyItems b d xs))"
proof (cases "addLoop \<lparr> tx_db = d, addedCount = 0, tx_budget = b, console = [] \<rparr> xs")
  case (Inl e)
  then show ?thesis using assms by (simp add: addVocabularyItems_def split: prod.splits)
next
  case (Inr t)
  have "idioms_pos_null (tx_db t)"
    using addLoop_pos_null[OF _ Inr] assms by simp
  then show ?thesis
    using assms Inr by (simp add: addVocabularyItems_def split: sum.splits)
qed

text \<open>
  Claim C9 at the upgrade. The claim rests on idioms being stored with \<^verbatim>\<open>pos = null\<close>,
  which \<^verbatim>\<open>addVocabularyItems\<close> sees to (\<^verbatim>\<open>{...data, pos: null}\<close>) and the upgrade does not:
  it adds a legacy idiom as \<^verbatim>\<open>data\<close> stands. After the upgrade of a legacy store that holds
  one idiom with \<^verbatim>\<open>pos\<close> \<^verbatim>\<open>'Verb'\<close>, \<^verbatim>\<open>getVocabulary\<close> with \<^verbatim>\<open>vocabType\<close> \<^verbatim>\<open>'idiom'\<close> and
  \<^verbatim>\<open>posFilter\<close> \<^verbatim>\<open>'Verb'\<close> returns that idiom, and so does
  \<^verbatim>\<open>getAllVocabularyForLevelAndCategory\<close>; the same idiom given to \<^verbatim>\<open>addVocabularyItems\<close> is
  stored with \<^verbatim>\<open>pos = null\<close> and the queries return nothing.
\<close>

theorem getVocabulary_returns_migrated_idiom:
  "map pos (idioms (upgrade [ex_legacy_idiom])) = [Some ''Verb'']
   \<and> map english
        (getVocabulary (\<lambda>a b. 0) ex_half (upgrade [ex_legacy_idiom])
           ''Beginner (TOEIC 400-600)'' ''Daily Life'' ''idiom'' ''Verb'' ''Random'' 10 None)
      = [''break a leg'']
   \<and> map type
        (getAllVocabularyForLevelAndCategory (\<lambda>a b. 0) ex_half (upgrade [ex_legacy_idiom])
           ''Beginner (TOEIC 400-600)'' ''Daily Life'' ''all'' ''Verb'' ''Alphabetical'' None)
      = [''idiom'']
   \<and> map pos (idioms (db_after (addVocabularyItems None empty_db [Some ex_idiom]))) = [None]
   \<and> getVocabulary (\<lambda>a b. 0) ex_half
        (db_after (addVocabularyItems None empty_db [Some ex_idiom]))
        ''Beginner (TOEIC 400-600)'' ''Daily Life'' ''idiom'' ''Verb'' ''Random'' 10 None = []"
  by code_simp

text \<open>
  Claim C3 at \<^verbatim>\<open>getExistingWords\<close>. The sampling sorts with a comparison function that
  draws a random sign. On a database of three records the sort makes at most three
  comparisons; of the eight equally likely sign sequences two give the stored order and
  one gives another order, so the orders are not equally likely (six equally likely
  orders cannot come from finitely many fair binary comparisons at all). The shuffle loop
  of \<^verbatim>\<open>getVocabulary\<close> and \<^verbatim>\<open>getAllVocabularyForLevelAndCategory\<close> is not used here.
\<close>

theorem getExistingWords_not_uniform:
  "length (filter (\<lambda>bs. getExistingWords (draws bs) ex_db ALL_LEVELS ALL_CATEGORIES ''all'' 1500
                        = [''run-Verb'', ''run-Noun'', ''break a leg'']) all_flips3) = 2
   \<and> length (filter (\<lambda>bs. getExistingWords (draws bs) ex_db ALL_LEVELS ALL_CATEGORIES ''all'' 1500
                        = [''run-Noun'', ''break a leg'', ''run-Verb'']) all_flips3) = 1
   \<and> length all_flips3 = 8"
  by code_simp

end
